theory Spec2Isabelle
  imports Main "HOL-Library.Sublist" "HOL-Library.Word"
begin

section \<open>Raw carving: \<open>RecoveryWorker.raw_recovery\<close> of \<open>recovery/main.py\<close>\<close>

subsection \<open>Bytes, searching, blocks, text\<close>

type_synonym byte = "8 word"

text \<open>
  \<open>bytes.find(sub)\<close>: the lowest index at which \<open>sub\<close> occurs, \<open>None\<close> for Python's \<open>-1\<close>.
\<close>

primrec find_bytes :: "byte list \<Rightarrow> byte list \<Rightarrow> nat option" where
  "find_bytes sub [] = (if sub = [] then Some 0 else None)"
| "find_bytes sub (x # xs) =
     (if prefix sub (x # xs) then Some 0 else map_option Suc (find_bytes sub xs))"

text \<open>
  What successive \<open>fileD.read(size)\<close> calls deliver on a stream: blocks of \<open>size\<close> bytes, the
  last one possibly shorter; after them every read returns the empty bytes object.
\<close>

function blocks_of :: "nat \<Rightarrow> byte list \<Rightarrow> byte list list" where
  "blocks_of n bs = (if n = 0 \<or> bs = [] then [] else take n bs # blocks_of n (drop n bs))"
  by pat_completeness auto
termination
  by (relation "measure (\<lambda>(n, bs). length bs)") auto

declare blocks_of.simps [simp del]

definition read_block :: "byte list list \<Rightarrow> byte list \<times> byte list list" where
  "read_block rest = (case rest of [] \<Rightarrow> ([], []) | b # bs \<Rightarrow> (b, bs))"

text \<open>Decimal text of a non-negative integer, as an f-string renders it.\<close>

definition digit_char :: "nat \<Rightarrow> char" where
  "digit_char d = char_of (48 + d)"

fun str_nat :: "nat \<Rightarrow> string" where
  "str_nat n = (if n < 10 then [digit_char n] else str_nat (n div 10) @ [digit_char (n mod 10)])"

declare str_nat.simps [simp del]

text \<open>\<open>os.path.join\<close> and \<open>os.path.basename\<close>, with the separator \<open>/\<close>.\<close>

definition path_join :: "string \<Rightarrow> string \<Rightarrow> string" where
  "path_join a b =
     (if b \<noteq> [] \<and> hd b = CHR ''/'' then b
      else if a = [] \<or> last a = CHR ''/'' then a @ b
      else a @ ''/'' @ b)"

definition basename :: "string \<Rightarrow> string" where
  "basename p = rev (takeWhile (\<lambda>c. c \<noteq> CHR ''/'') (rev p))"

text \<open>\<open>str.upper()\<close> on ASCII text (the scan applies it to its two type tags).\<close>

definition upper :: "string \<Rightarrow> string" where
  "upper s =
     map (\<lambda>c. if (97::nat) \<le> of_char c \<and> of_char c \<le> (122::nat)
              then char_of (of_char c - (32::nat)) else c) s"

subsection \<open>Signatures\<close>

definition jpg_signatures :: "byte list list" where
  "jpg_signatures =
     [[0xff, 0xd8, 0xff, 0xe0, 0x00, 0x10, 0x4a, 0x46],
      [0xff, 0xd8, 0xff, 0xe1],
      [0xff, 0xd8, 0xff, 0xdb],
      [0xff, 0xd8, 0xff, 0xe0],
      [0xff, 0xd8, 0xff, 0xee],
      [0xff, 0xd8, 0xff, 0xc0],
      [0xff, 0xd8, 0xff, 0xc4]]"

definition png_signature :: "byte list" where
  "png_signature = [0x89, 0x50, 0x4e, 0x47, 0x0d, 0x0a, 0x1a, 0x0a]"

definition end_signature :: "string \<Rightarrow> byte list" where
  "end_signature file_type =
     (if file_type = ''jpg'' then [0xff, 0xd9]
      else [0x49, 0x45, 0x4e, 0x44, 0xae, 0x42, 0x60, 0x82])"

text \<open>The \<open>for sig in jpg_signatures\<close> loop: the first signature of the list that occurs wins.\<close>

fun find_jpg :: "byte list list \<Rightarrow> byte list \<Rightarrow> nat option" where
  "find_jpg [] byte = None"
| "find_jpg (sig # sigs) byte =
     (case find_bytes sig byte of Some found \<Rightarrow> Some found | None \<Rightarrow> find_jpg sigs byte)"

definition find_start :: "byte list \<Rightarrow> (string \<times> nat) option" where
  "find_start byte =
     (case find_jpg jpg_signatures byte of
        Some found \<Rightarrow> Some (''jpg'', found)
      | None \<Rightarrow>
          (case find_bytes png_signature byte of
             Some found \<Rightarrow> Some (''png'', found)
           | None \<Rightarrow> None))"

subsection \<open>Records, events, environment, state\<close>

text \<open>
  The dictionaries of \<open>recovered_files\<close>; the key \<open>hash\<close> is absent until the verifier sets it.
\<close>

record file_info =
  path :: string
  fsize :: nat
  ftype :: string
  status :: string
  hash :: "string option"

datatype scan_error =
  MakedirsFailed | DriveNotFound | DriveOpenFailed
  | ReadFailure nat | SinkOpenFailure nat | WriteFailure nat nat

datatype event = Progress nat | Status string | Error scan_error

text \<open>
  Everything outside the program that the scan depends on. Reads are numbered from 0 (the read
  before the loop); the writes of candidate \<open>n\<close> are numbered from 0 (the write of the block that
  holds the start signature). \<open>stop_after = Some n\<close>: \<open>stop()\<close> has cleared \<open>_is_running\<close> by
  the time \<open>offs\<close> reaches \<open>n\<close>; the flag is never set again during a scan.
\<close>

record scan_env =
  makedirs_ok :: bool
  drive_exists :: bool
  drive_size :: "nat option"
  drive_open_ok :: bool
  drive_data :: "byte list"
  read_ok :: "nat \<Rightarrow> bool"
  sink_open_ok :: "nat \<Rightarrow> bool"
  sink_write_ok :: "nat \<Rightarrow> nat \<Rightarrow> bool"
  stop_after :: "nat option"

text \<open>
  The three floating-point expressions of the progress estimate, taken as parameters, since
  their values are those of IEEE doubles: \<open>pct a b\<close> is \<open>int((a / b) * 100)\<close>, \<open>scale x\<close> is
  \<open>int(x * 0.90)\<close>, and \<open>pct_weighted a b\<close> is \<open>int((a / b) * 0.90 * 100)\<close>. The operands are
  never negative and the divisor never zero, so the truncated results are natural numbers.
\<close>

record float_ops =
  pct :: "nat \<Rightarrow> nat \<Rightarrow> nat"
  scale :: "nat \<Rightarrow> nat"
  pct_weighted :: "nat \<Rightarrow> nat \<Rightarrow> nat"

record scan_state =
  offs :: nat
  processed_sectors :: nat
  prev_progress :: nat
  rcvd :: nat
  recovered_files :: "file_info list"
  file_sectors :: nat
  estimated_file_size :: nat
  events :: "event list"
  disk :: "string \<rightharpoonup> byte list"

definition is_running :: "scan_env \<Rightarrow> scan_state \<Rightarrow> bool" where
  "is_running env st = (case stop_after env of None \<Rightarrow> True | Some n \<Rightarrow> offs st < n)"

definition emit :: "event list \<Rightarrow> scan_state \<Rightarrow> scan_state" where
  "emit evs st = st\<lparr>events := events st @ evs\<rparr>"

definition file_bytes :: "scan_state \<Rightarrow> string \<Rightarrow> byte list" where
  "file_bytes st p = (case disk st p of None \<Rightarrow> [] | Some bs \<Rightarrow> bs)"

definition sink_write :: "string \<Rightarrow> byte list \<Rightarrow> scan_state \<Rightarrow> scan_state" where
  "sink_write p bs st = st\<lparr>disk := (disk st)(p \<mapsto> file_bytes st p @ bs)\<rparr>"

text \<open>The f-strings of the scan: the name of a candidate's file and the status messages.\<close>

definition candidate_path :: "string \<Rightarrow> nat \<Rightarrow> string \<Rightarrow> string" where
  "candidate_path output_dir n file_type =
     path_join output_dir (''recovered_'' @ str_nat n @ ''.'' @ file_type)"

definition recovering_message :: "string \<Rightarrow> nat \<Rightarrow> string" where
  "recovering_message file_type file_progress =
     ''Recovering '' @ upper file_type @ '' file ('' @ str_nat file_progress @ ''% complete)''"

definition recovered_message :: "nat \<Rightarrow> string \<Rightarrow> string" where
  "recovered_message n file_path =
     ''Recovered file '' @ str_nat n @ '': '' @ basename file_path"

definition complete_message :: "nat \<Rightarrow> string" where
  "complete_message n = ''Scan complete. Found '' @ str_nat n @ '' files.''"

subsection \<open>The loop over one candidate file (lines 164 to 211)\<close>

text \<open>
  Lines 166 to 194: the counters, the size estimate of the file in progress, and the progress
  event. \<open>file_sectors > estimated_file_size / 2\<close> compares an integer with half an integer,
  which is \<open>estimated_file_size < 2 * file_sectors\<close>.
\<close>

definition file_tick :: "float_ops \<Rightarrow> nat \<Rightarrow> string \<Rightarrow> scan_state \<Rightarrow> scan_state" where
  "file_tick fl total_sectors file_type st =
     (let st1 = st\<lparr>offs := offs st + 1,
                   processed_sectors := processed_sectors st + 1,
                   file_sectors := file_sectors st + 1\<rparr>;
          scan_progress = min 100 (pct fl (processed_sectors st1) total_sectors);
          st2 = (if estimated_file_size st1 < 2 * file_sectors st1
                 then st1\<lparr>estimated_file_size := file_sectors st1 * 2\<rparr> else st1);
          file_progress = min 100 (pct fl (file_sectors st2) (estimated_file_size st2));
          combined_progress = scale fl scan_progress;
          current_progress = min 95 (max (prev_progress st2) combined_progress)
      in if current_progress > prev_progress st2
         then (emit [Progress current_progress,
                     Status (recovering_message file_type file_progress)] st2)
                \<lparr>prev_progress := current_progress\<rparr>
         else st2)"

function carve_file ::
  "scan_env \<Rightarrow> float_ops \<Rightarrow> nat \<Rightarrow> string \<Rightarrow> string \<Rightarrow> scan_state \<Rightarrow> byte list list
   \<Rightarrow> (scan_error \<times> scan_state) + (scan_state \<times> byte list list)" where
  "carve_file env fl total_sectors file_type file_path st rest =
     (if \<not> is_running env st then Inr (st, rest)
      else if \<not> read_ok env (offs st + 1) then Inl (ReadFailure (offs st + 1), st)
      else
        let (byte, rest') = read_block rest;
            st1 = file_tick fl total_sectors file_type st
        in if byte = [] then Inr (st1, rest')
           else
             (case find_bytes (end_signature file_type) byte of
                Some bfind \<Rightarrow>
                  if \<not> sink_write_ok env (rcvd st1) (file_sectors st1)
                  then Inl (WriteFailure (rcvd st1) (file_sectors st1), st1)
                  else Inr (sink_write file_path
                              (take (bfind + (if file_type = ''jpg'' then 2 else 12)) byte) st1,
                            rest')
              | None \<Rightarrow>
                  if \<not> sink_write_ok env (rcvd st1) (file_sectors st1)
                  then Inl (WriteFailure (rcvd st1) (file_sectors st1), st1)
                  else carve_file env fl total_sectors file_type file_path
                         (sink_write file_path byte st1) rest'))"
  by pat_completeness auto
termination
  by (relation "measure (\<lambda>(env, fl, total_sectors, file_type, file_path, st, rest). length rest)")
     (auto simp: read_block_def split: list.splits)

declare carve_file.simps [simp del]

subsection \<open>One detected candidate (lines 142 to 221)\<close>

text \<open>
  Lines 150 to 162, once the sink is open: \<open>open(file_path, "wb")\<close> creates or empties the
  file, then the block is written from the signature on.
\<close>

definition open_sink :: "string \<Rightarrow> scan_state \<Rightarrow> scan_state" where
  "open_sink file_path st = st\<lparr>estimated_file_size := 1000, disk := (disk st)(file_path \<mapsto> [])\<rparr>"

definition begin_file :: "string \<Rightarrow> nat \<Rightarrow> byte list \<Rightarrow> scan_state \<Rightarrow> scan_state" where
  "begin_file file_path found_pos byte st =
     (sink_write file_path (drop found_pos byte) (open_sink file_path st))\<lparr>file_sectors := 0\<rparr>"

text \<open>Lines 213 to 221: the counter, the message, the record with the size of the file.\<close>

definition finish_candidate :: "string \<Rightarrow> string \<Rightarrow> scan_state \<Rightarrow> scan_state" where
  "finish_candidate file_path file_type st =
     (emit [Status (recovered_message (rcvd st + 1) file_path)] (st\<lparr>rcvd := rcvd st + 1\<rparr>))
       \<lparr>recovered_files := recovered_files st @
          [\<lparr>path = file_path, fsize = length (file_bytes st file_path), ftype = file_type,
            status = ''Recovered'', hash = None\<rparr>]\<rparr>"

definition carve_candidate ::
  "scan_env \<Rightarrow> float_ops \<Rightarrow> nat \<Rightarrow> string \<Rightarrow> string \<Rightarrow> nat \<Rightarrow> scan_state \<Rightarrow> byte list
   \<Rightarrow> byte list list \<Rightarrow> (scan_error \<times> scan_state) + (scan_state \<times> byte list list)" where
  "carve_candidate env fl total_sectors output_dir file_type found_pos st byte rest =
     (let file_path = candidate_path output_dir (rcvd st) file_type
      in if \<not> sink_open_ok env (rcvd st)
         then Inl (SinkOpenFailure (rcvd st), st\<lparr>estimated_file_size := 1000\<rparr>)
         else if \<not> sink_write_ok env (rcvd st) 0
         then Inl (WriteFailure (rcvd st) 0, open_sink file_path st)
         else
           (case carve_file env fl total_sectors file_type file_path
                   (begin_file file_path found_pos byte st) rest of
              Inl e \<Rightarrow> Inl e
            | Inr (st', rest') \<Rightarrow> Inr (finish_candidate file_path file_type st', rest')))"

subsection \<open>The scan loop (lines 121 to 232)\<close>

text \<open>Lines 223 to 232: the next block, and the periodic progress event.\<close>

definition next_block ::
  "scan_env \<Rightarrow> float_ops \<Rightarrow> nat \<Rightarrow> scan_state \<Rightarrow> byte list list
   \<Rightarrow> (scan_error \<times> scan_state) + (scan_state \<times> byte list \<times> byte list list)" where
  "next_block env fl total_sectors st rest =
     (if \<not> read_ok env (offs st + 1) then Inl (ReadFailure (offs st + 1), st)
      else
        let (byte, rest') = read_block rest;
            st1 = st\<lparr>offs := offs st + 1, processed_sectors := processed_sectors st + 1\<rparr>;
            current_progress = min 95 (pct_weighted fl (processed_sectors st1) total_sectors)
        in Inr (if processed_sectors st1 mod 1000 = 0 \<and> current_progress > prev_progress st1
                then (emit [Progress current_progress] st1)\<lparr>prev_progress := current_progress\<rparr>
                else st1,
                byte, rest'))"

text \<open>Lines 122 to 221 of one iteration: look for a start signature, carve if there is one.\<close>

definition scan_block ::
  "scan_env \<Rightarrow> float_ops \<Rightarrow> nat \<Rightarrow> string \<Rightarrow> scan_state \<Rightarrow> byte list \<Rightarrow> byte list list
   \<Rightarrow> (scan_error \<times> scan_state) + (scan_state \<times> byte list list)" where
  "scan_block env fl total_sectors output_dir st byte rest =
     (case find_start byte of
        None \<Rightarrow> Inr (st, rest)
      | Some (file_type, found_pos) \<Rightarrow>
          carve_candidate env fl total_sectors output_dir file_type found_pos st byte rest)"

lemma read_block_length:
  "read_block rest = (byte, rest') \<Longrightarrow> length rest' \<le> length rest"
  by (auto simp: read_block_def split: list.splits)

lemma read_block_measure:
  "read_block rest = (byte, rest') \<Longrightarrow>
   length rest' + (if byte = [] then 0 else 1) \<le> length rest + (if rest = [] then 0 else 0)"
  by (auto simp: read_block_def split: list.splits)

lemma carve_file_Nil:
  "carve_file env fl total_sectors file_type file_path st [] =
     (if \<not> is_running env st then Inr (st, [])
      else if \<not> read_ok env (offs st + 1) then Inl (ReadFailure (offs st + 1), st)
      else Inr (file_tick fl total_sectors file_type st, []))"
  by (subst carve_file.simps) (simp add: read_block_def)

lemma carve_file_Cons:
  "carve_file env fl total_sectors file_type file_path st (byte # rest) =
     (if \<not> is_running env st then Inr (st, byte # rest)
      else if \<not> read_ok env (offs st + 1) then Inl (ReadFailure (offs st + 1), st)
      else if byte = [] then Inr (file_tick fl total_sectors file_type st, rest)
      else if \<not> sink_write_ok env (rcvd (file_tick fl total_sectors file_type st))
                  (file_sectors (file_tick fl total_sectors file_type st))
      then Inl (WriteFailure (rcvd (file_tick fl total_sectors file_type st))
                  (file_sectors (file_tick fl total_sectors file_type st)),
                file_tick fl total_sectors file_type st)
      else
        (case find_bytes (end_signature file_type) byte of
           Some bfind \<Rightarrow>
             Inr (sink_write file_path
                    (take (bfind + (if file_type = ''jpg'' then 2 else 12)) byte)
                    (file_tick fl total_sectors file_type st), rest)
         | None \<Rightarrow>
             carve_file env fl total_sectors file_type file_path
               (sink_write file_path byte (file_tick fl total_sectors file_type st)) rest))"
  by (subst carve_file.simps) (simp add: read_block_def Let_def split: option.splits)

lemma carve_file_length:
  "carve_file env fl total_sectors file_type file_path st rest = Inr (st', rest')
   \<Longrightarrow> length rest' \<le> length rest"
proof (induction rest arbitrary: st)
  case Nil
  then show ?case
    by (simp add: carve_file_Nil split: if_splits)
next
  case (Cons byte rest)
  have step: "length rest' \<le> length rest"
    if "carve_file env fl total_sectors file_type file_path s rest = Inr (st', rest')" for s
    using that by (rule Cons.IH)
  from Cons.prems show ?case
    by (cases "find_bytes (end_signature file_type) byte")
       (auto simp: carve_file_Cons le_Suc_eq split: if_split_asm dest: step)
qed

lemma scan_block_length:
  "scan_block env fl total_sectors output_dir st byte rest = Inr (st', rest')
   \<Longrightarrow> length rest' \<le> length rest"
  by (auto simp: scan_block_def carve_candidate_def Let_def
           split: option.splits if_splits sum.splits prod.splits
           dest: carve_file_length)

lemma next_block_measure:
  "next_block env fl total_sectors st rest = Inr (st', byte, rest')
   \<Longrightarrow> length rest' + (if byte = [] then 0 else 1) \<le> length rest"
  by (auto simp: next_block_def read_block_def Let_def split: if_splits list.splits)

function scan_loop ::
  "scan_env \<Rightarrow> float_ops \<Rightarrow> nat \<Rightarrow> string \<Rightarrow> scan_state \<Rightarrow> byte list \<Rightarrow> byte list list
   \<Rightarrow> (scan_error \<times> scan_state) + scan_state" where
  "scan_loop env fl total_sectors output_dir st byte rest =
     (if byte = [] \<or> \<not> is_running env st then Inr st
      else
        (case scan_block env fl total_sectors output_dir st byte rest of
           Inl e \<Rightarrow> Inl e
         | Inr (st', rest') \<Rightarrow>
             (case next_block env fl total_sectors st' rest' of
                Inl e \<Rightarrow> Inl e
              | Inr (st'', byte', rest'') \<Rightarrow>
                  scan_loop env fl total_sectors output_dir st'' byte' rest'')))"
  by pat_completeness auto
termination
proof (relation "measure (\<lambda>(env, fl, total_sectors, output_dir, st, byte, rest).
                   length rest + (if byte = [] then 0 else 1))", goal_cases)
  case 1
  show ?case by simp
next
  case (2 env fl total_sectors output_dir st byte rest x2 st' rest' x2a st'' x2b byte' rest'')
  from 2 have "length rest' \<le> length rest"
    using scan_block_length by metis
  moreover from 2 have "length rest'' + (if byte' = [] then 0 else 1) \<le> length rest'"
    using next_block_measure by metis
  moreover from 2 have "byte \<noteq> []" by simp
  ultimately show ?case by simp
qed

declare scan_loop.simps [simp del]

subsection \<open>\<open>raw_recovery\<close>\<close>

record carve_result =
  returned :: "file_info list"
  emitted :: "event list"
  on_disk :: "string \<rightharpoonup> byte list"

definition initial_state :: scan_state where
  "initial_state =
     \<lparr>offs = 0, processed_sectors = 0, prev_progress = 0, rcvd = 0, recovered_files = [],
      file_sectors = 0, estimated_file_size = 0, events = [], disk = Map.empty\<rparr>"

definition total_sectors_of :: "scan_env \<Rightarrow> nat \<Rightarrow> nat" where
  "total_sectors_of env block_size =
     (case drive_size env of
        None \<Rightarrow> 1000000
      | Some n \<Rightarrow> if n div block_size \<le> 0 then 1000000 else n div block_size)"

text \<open>
  The \<open>except Exception\<close> of line 238 emits the error and returns the empty list; what was
  written to the output directory before stays there.
\<close>

definition aborted :: "scan_error \<Rightarrow> scan_state \<Rightarrow> carve_result" where
  "aborted e st = \<lparr>returned = [], emitted = events st @ [Error e], on_disk = disk st\<rparr>"

text \<open>Lines 234 to 242: the last events and the returned list.\<close>

fun conclude :: "(scan_error \<times> scan_state) + scan_state \<Rightarrow> carve_result" where
  "conclude (Inl (e, st)) = aborted e st"
| "conclude (Inr st) =
     \<lparr>returned = recovered_files st,
      emitted = events st @ [Progress 98, Status (complete_message (rcvd st))],
      on_disk = disk st\<rparr>"

definition start_state :: scan_state where
  "start_state = emit [Status ''Scanning drive sectors for image files...''] initial_state"

definition raw_recovery :: "scan_env \<Rightarrow> float_ops \<Rightarrow> string \<Rightarrow> carve_result" where
  "raw_recovery env fl output_dir =
     (let block_size = 512 in
      if \<not> makedirs_ok env then aborted MakedirsFailed initial_state
      else if \<not> drive_exists env then aborted DriveNotFound start_state
      else if \<not> drive_open_ok env then aborted DriveOpenFailed start_state
      else if \<not> read_ok env 0 then aborted (ReadFailure 0) start_state
      else
        let (byte, rest) = read_block (blocks_of block_size (drive_data env))
        in conclude (scan_loop env fl (total_sectors_of env block_size) output_dir
                       start_state byte rest))"

text \<open>
  Lines 223 to 232 and back to the head of the loop: how the scan goes on from the blocks not
  yet read.
\<close>

definition resume ::
  "scan_env \<Rightarrow> float_ops \<Rightarrow> nat \<Rightarrow> string \<Rightarrow> scan_state \<Rightarrow> byte list list
   \<Rightarrow> (scan_error \<times> scan_state) + scan_state" where
  "resume env fl total_sectors output_dir st rest =
     (case next_block env fl total_sectors st rest of
        Inl e \<Rightarrow> Inl e
      | Inr (st', byte, rest') \<Rightarrow> scan_loop env fl total_sectors output_dir st' byte rest')"

subsection \<open>Reading results\<close>

text \<open>The state in which a loop ended, whether it failed or not.\<close>

fun state_of :: "(scan_error \<times> scan_state) + (scan_state \<times> 'a) \<Rightarrow> scan_state" where
  "state_of (Inl (e, st)) = st"
| "state_of (Inr (st, r)) = st"

fun loop_state :: "(scan_error \<times> scan_state) + scan_state \<Rightarrow> scan_state" where
  "loop_state (Inl (e, st)) = st"
| "loop_state (Inr st) = st"

text \<open>The values sent on \<open>progress_updated\<close>, in order.\<close>

primrec progress_values :: "event list \<Rightarrow> nat list" where
  "progress_values [] = []"
| "progress_values (e # es) =
     (case e of Progress p \<Rightarrow> p # progress_values es | _ \<Rightarrow> progress_values es)"

text \<open>
  The three floating-point expressions in exact arithmetic, and a device on which every
  operation succeeds: the environment of the concrete runs below.
\<close>

definition exact_ops :: float_ops where
  "exact_ops =
     \<lparr>pct = (\<lambda>a b. (a * 100) div b), scale = (\<lambda>x. (x * 9) div 10),
      pct_weighted = (\<lambda>a b. (a * 90) div b)\<rparr>"

definition healthy :: "byte list \<Rightarrow> scan_env" where
  "healthy bs =
     \<lparr>makedirs_ok = True, drive_exists = True, drive_size = Some (length bs),
      drive_open_ok = True, drive_data = bs, read_ok = (\<lambda>_. True),
      sink_open_ok = (\<lambda>_. True), sink_write_ok = (\<lambda>_ _. True), stop_after = None\<rparr>"

section \<open>Integrity verification: \<open>FileIntegrityVerifier\<close> of \<open>recovery/verifier.py\<close>\<close>

text \<open>The files the verifier sees: a path exists when it has a content.\<close>

type_synonym file_system = "string \<rightharpoonup> byte list"

text \<open>
  What lies outside the program: whether \<open>os.makedirs\<close> and \<open>shutil.move\<close> succeed, whether
  a file can be read for hashing, the SHA-256 digest of a content, and what PIL makes of a
  content (width, height and format of the image, or \<open>None\<close> when \<open>Image.open\<close> or
  \<open>verify\<close> raises).
\<close>

record verify_env =
  quarantine_dir_ok :: bool
  move_ok :: "string \<Rightarrow> string \<Rightarrow> bool"
  hash_read_ok :: "string \<Rightarrow> bool"
  sha256_hex :: "byte list \<Rightarrow> string"
  image_open :: "byte list \<Rightarrow> (int \<times> int \<times> string) option"

text \<open>\<open>_calculate_file_hash\<close>: any exception gives the text \<open>hash_error\<close>.\<close>

definition calculate_file_hash :: "verify_env \<Rightarrow> file_system \<Rightarrow> string \<Rightarrow> string" where
  "calculate_file_hash env fs file_path =
     (case fs file_path of
        None \<Rightarrow> ''hash_error''
      | Some content \<Rightarrow>
          if hash_read_ok env file_path then sha256_hex env content else ''hash_error'')"

text \<open>\<open>_verify_image_integrity\<close>: any exception gives \<open>False\<close>.\<close>

definition verify_image_integrity ::
  "verify_env \<Rightarrow> file_system \<Rightarrow> string \<Rightarrow> string \<Rightarrow> bool" where
  "verify_image_integrity env fs file_path file_type =
     (case fs file_path of
        None \<Rightarrow> False
      | Some content \<Rightarrow>
          if length content = 0 then False
          else
            (case image_open env content of
               None \<Rightarrow> False
             | Some (width, height, format) \<Rightarrow>
                 if width \<le> 0 \<or> height \<le> 0 \<or> width > 10000 \<or> height > 10000 then False
                 else if file_type = ''jpg'' \<and> format \<notin> set [''JPEG'', ''JPG''] then False
                 else if file_type = ''png'' \<and> format \<noteq> ''PNG'' then False
                 else True))"

text \<open>Lines 56 and 57: the name of a quarantined file.\<close>

definition corrupted_filename :: "nat \<Rightarrow> string \<Rightarrow> string" where
  "corrupted_filename n base = ''corrupted_'' @ str_nat n @ ''_'' @ base"

definition corrupted_path :: "string \<Rightarrow> nat \<Rightarrow> string \<Rightarrow> string" where
  "corrupted_path corrupted_dir n file_path =
     path_join corrupted_dir (corrupted_filename n (basename file_path))"

text \<open>\<open>shutil.move\<close> when it succeeds.\<close>

definition move_file :: "string \<Rightarrow> string \<Rightarrow> file_system \<Rightarrow> file_system" where
  "move_file src dst fs = (case fs src of None \<Rightarrow> fs | Some content \<Rightarrow> (fs(src := None))(dst \<mapsto> content))"

text \<open>One iteration of the loop of \<open>verify_files\<close> (lines 36 to 68).\<close>

definition verify_file ::
  "verify_env \<Rightarrow> string \<Rightarrow> file_system \<Rightarrow> nat \<Rightarrow> file_info
   \<Rightarrow> file_info \<times> file_system \<times> nat" where
  "verify_file env corrupted_dir fs corrupted_count file_info =
     (let file_path = path file_info in
      if fs file_path = None then (file_info\<lparr>status := ''Missing''\<rparr>, fs, corrupted_count)
      else
        let file_info1 = file_info\<lparr>hash := Some (calculate_file_hash env fs file_path)\<rparr>
        in if verify_image_integrity env fs file_path (ftype file_info1)
           then (file_info1\<lparr>status := ''OK''\<rparr>, fs, corrupted_count)
           else
             let corrupted_count1 = corrupted_count + 1;
                 dst = corrupted_path corrupted_dir corrupted_count1 file_path
             in if move_ok env file_path dst
                then (file_info1\<lparr>path := dst, status := ''Corrupted''\<rparr>,
                      move_file file_path dst fs, corrupted_count1)
                else (file_info1\<lparr>status := ''Corrupted (not moved)''\<rparr>, fs, corrupted_count1))"

fun verify_loop ::
  "verify_env \<Rightarrow> string \<Rightarrow> file_system \<Rightarrow> nat \<Rightarrow> file_info list
   \<Rightarrow> file_info list \<times> file_system \<times> nat" where
  "verify_loop env corrupted_dir fs corrupted_count [] = ([], fs, corrupted_count)"
| "verify_loop env corrupted_dir fs corrupted_count (file_info # file_list) =
     (case verify_file env corrupted_dir fs corrupted_count file_info of
        (file_info', fs', corrupted_count') \<Rightarrow>
          (case verify_loop env corrupted_dir fs' corrupted_count' file_list of
             (verified_files, fs'', corrupted_count'') \<Rightarrow>
               (file_info' # verified_files, fs'', corrupted_count'')))"

text \<open>
  \<open>verify_files\<close>: the counter starts at 0; when the quarantine directory cannot be created the
  list comes back as it was given (line 76).
\<close>

definition verify_files ::
  "verify_env \<Rightarrow> string \<Rightarrow> file_info list \<Rightarrow> file_system \<Rightarrow> file_info list \<times> file_system" where
  "verify_files env corrupted_dir file_list fs =
     (if \<not> quarantine_dir_ok env then (file_list, fs)
      else
        (case verify_loop env corrupted_dir fs 0 file_list of
           (verified_files, fs', corrupted_count) \<Rightarrow> (verified_files, fs')))"

section \<open>The scan, block by block\<close>

text \<open>
  A description of what a scan without failures carves, as a function of the blocks alone.
  \<open>file_extent\<close>: the chunks that the loop over one file writes from the blocks that follow the
  block of the start signature, and the blocks left unread after it: every block up to the first
  one that holds the end signature, that one cut after the marker; all the blocks when none
  holds it.
\<close>

fun file_extent :: "string \<Rightarrow> byte list list \<Rightarrow> byte list list \<times> byte list list" where
  "file_extent file_type [] = ([], [])"
| "file_extent file_type (b # bs) =
     (case find_bytes (end_signature file_type) b of
        Some k \<Rightarrow> ([take (k + (if file_type = ''jpg'' then 2 else 12)) b], bs)
      | None \<Rightarrow> (case file_extent file_type bs of (chunks, rest) \<Rightarrow> (b # chunks, rest)))"

lemma file_extent_suffix: "file_extent ft bs = (chunks, rest) \<Longrightarrow> suffix rest bs"
proof (induction bs arbitrary: chunks)
  case Nil
  then show ?case by simp
next
  case (Cons b bs)
  then show ?case
    by (cases "find_bytes (end_signature ft) b")
       (auto simp: suffix_Cons split: prod.splits)
qed

lemma file_extent_length: "file_extent ft bs = (chunks, rest) \<Longrightarrow> length rest \<le> length bs"
  by (drule file_extent_suffix) (rule suffix_length_le)

text \<open>
  \<open>detections\<close>: the files carved from a list of blocks, each with its type and the chunks
  written to it. A block is searched for a start signature only when no file is in progress;
  after a file, the search goes on with the block after the file's last block.
\<close>

function detections :: "byte list list \<Rightarrow> (string \<times> byte list list) list" where
  "detections [] = []"
| "detections (b # bs) =
     (case find_start b of
        None \<Rightarrow> detections bs
      | Some (file_type, found_pos) \<Rightarrow>
          (case file_extent file_type bs of
             (chunks, rest) \<Rightarrow> (file_type, drop found_pos b # chunks) # detections rest))"
  by pat_completeness auto
termination
  by (relation "measure length") (auto dest: file_extent_length [OF sym])

lemma detections_no_signature [simp]:
  "find_start b = None \<Longrightarrow> detections (b # bs) = detections bs"
  by simp

lemma detections_signature:
  "find_start b = Some (ft, pos) \<Longrightarrow>
   detections (b # bs) =
     (ft, drop pos b # fst (file_extent ft bs)) # detections (snd (file_extent ft bs))"
  by (simp split: prod.splits)

declare detections.simps(2) [simp del]

text \<open>The scan loop started on a list of blocks, the first of them just read.\<close>

definition scan_list ::
  "scan_env \<Rightarrow> float_ops \<Rightarrow> nat \<Rightarrow> string \<Rightarrow> scan_state \<Rightarrow> byte list list
   \<Rightarrow> (scan_error \<times> scan_state) + scan_state" where
  "scan_list env fl total_sectors output_dir st blocks =
     (case read_block blocks of
        (byte, rest) \<Rightarrow> scan_loop env fl total_sectors output_dir st byte rest)"

text \<open>Type and size, of a record and of a described file.\<close>

definition summary :: "file_info \<Rightarrow> string \<times> nat" where
  "summary r = (ftype r, fsize r)"

definition chunk_summary :: "string \<times> byte list list \<Rightarrow> string \<times> nat" where
  "chunk_summary d = (fst d, length (concat (snd d)))"

text \<open>
  The sink of every described file, numbered from \<open>c\<close>, could be opened, and each of its
  chunks written.
\<close>

fun writes_done :: "scan_env \<Rightarrow> nat \<Rightarrow> (string \<times> byte list list) list \<Rightarrow> bool" where
  "writes_done env c [] = True"
| "writes_done env c (d # ds) =
     (sink_open_ok env c \<and> (\<forall>w < length (snd d). sink_write_ok env c w) \<and>
      writes_done env (c + 1) ds)"

section \<open>Properties of the scan\<close>

subsection \<open>Invariants of the loops\<close>

lemma progress_values_append [simp]:
  "progress_values (xs @ ys) = progress_values xs @ progress_values ys"
  by (induction xs) (auto split: event.splits)

lemma carve_file_invariant:
  assumes tick: "\<And>s. P s \<Longrightarrow> P (file_tick fl total_sectors file_type s)"
    and wr: "\<And>s bs. P s \<Longrightarrow> P (sink_write file_path bs s)"
    and st: "P st"
  shows "P (state_of (carve_file env fl total_sectors file_type file_path st rest))"
  using st
proof (induction rest arbitrary: st)
  case Nil
  then show ?case by (simp add: carve_file_Nil tick)
next
  case (Cons byte rest)
  have "P (sink_write file_path byte (file_tick fl total_sectors file_type st))"
    using Cons.prems by (intro wr tick)
  from Cons.IH [OF this] Cons.prems show ?case
    by (cases "find_bytes (end_signature file_type) byte")
       (simp_all add: carve_file_Cons tick wr)
qed

lemma scan_block_invariant:
  assumes tick: "\<And>s ft. P s \<Longrightarrow> P (file_tick fl total_sectors ft s)"
    and wr: "\<And>s p bs. P s \<Longrightarrow> P (sink_write p bs s)"
    and est: "\<And>s n. P s \<Longrightarrow> P (s\<lparr>estimated_file_size := n\<rparr>)"
    and dsk: "\<And>s d. P s \<Longrightarrow> P (s\<lparr>disk := d\<rparr>)"
    and fs: "\<And>s n. P s \<Longrightarrow> P (s\<lparr>file_sectors := n\<rparr>)"
    and fin: "\<And>s p ft. P s \<Longrightarrow> P (finish_candidate p ft s)"
    and st: "P st"
  shows "P (state_of (scan_block env fl total_sectors output_dir st byte rest))"
proof (cases "find_start byte")
  case None
  then show ?thesis using st by (simp add: scan_block_def)
next
  case (Some a)
  obtain ft pos where a: "a = (ft, pos)" by (cases a)
  define fp where "fp = candidate_path output_dir (rcvd st) ft"
  have P0: "P (open_sink fp st)"
    unfolding open_sink_def using st by (intro dsk est)
  have P1: "P (begin_file fp pos byte st)"
    unfolding begin_file_def using P0 by (intro fs wr)
  have P2: "P (state_of (carve_file env fl total_sectors ft fp (begin_file fp pos byte st) rest))"
    using tick wr P1 by (rule carve_file_invariant)
  show ?thesis
  proof (cases "carve_file env fl total_sectors ft fp (begin_file fp pos byte st) rest")
    case (Inl e)
    then show ?thesis using Some a st P0 P2
      by (cases e)
         (simp add: scan_block_def carve_candidate_def Let_def fp_def [symmetric] est)
  next
    case (Inr b)
    obtain s2 r where b: "b = (s2, r)" by (cases b)
    have "P s2" using P2 by (simp add: Inr b)
    from fin [OF this] show ?thesis using Some a st P0 Inr b
      by (simp add: scan_block_def carve_candidate_def Let_def fp_def [symmetric] est)
  qed
qed

lemma scan_loop_invariant:
  assumes "\<And>s b r. P s \<Longrightarrow> P (state_of (scan_block env fl total_sectors output_dir s b r))"
    and "\<And>s r. P s \<Longrightarrow> P (state_of (next_block env fl total_sectors s r))"
    and "P st"
  shows "P (loop_state (scan_loop env fl total_sectors output_dir st byte rest))"
  using assms
proof (induction env fl total_sectors output_dir st byte rest rule: scan_loop.induct)
  case (1 env fl total_sectors output_dir st byte rest)
  note blk = "1.prems"(1) and nxt = "1.prems"(2) and st = "1.prems"(3)
  show ?case
  proof (cases "byte = [] \<or> \<not> is_running env st")
    case True
    then show ?thesis using st by (subst scan_loop.simps) simp
  next
    case False
    show ?thesis
    proof (cases "scan_block env fl total_sectors output_dir st byte rest")
      case (Inl a)
      obtain e s where a: "a = (e, s)" by (cases a)
      have "scan_loop env fl total_sectors output_dir st byte rest = Inl (e, s)"
        using False Inl a by (subst scan_loop.simps) simp
      moreover have "P s"
        using blk [OF st, of byte rest] by (simp add: Inl a)
      ultimately show ?thesis by simp
    next
      case (Inr b)
      obtain st' rest' where b: "b = (st', rest')" by (cases b)
      have P': "P st'" using blk [OF st, of byte rest] by (simp add: Inr b)
      show ?thesis
      proof (cases "next_block env fl total_sectors st' rest'")
        case (Inl a)
        obtain e s where a: "a = (e, s)" by (cases a)
        have "scan_loop env fl total_sectors output_dir st byte rest = Inl (e, s)"
          using False Inr b Inl a by (subst scan_loop.simps) simp
        moreover have "P s"
          using nxt [OF P', of rest'] by (simp add: Inl a)
        ultimately show ?thesis by simp
      next
        case Inr2: (Inr c)
        obtain st'' byte' rest'' where c: "c = (st'', byte', rest'')" by (cases c)
        have P'': "P st''" using nxt [OF P', of rest'] by (simp add: Inr2 c)
        have "scan_loop env fl total_sectors output_dir st byte rest =
              scan_loop env fl total_sectors output_dir st'' byte' rest''"
          using False Inr b Inr2 c by (subst scan_loop.simps) simp
        moreover have "P (loop_state (scan_loop env fl total_sectors output_dir st'' byte' rest''))"
          using False Inr b Inr2 c blk nxt P'' by (intro "1.IH") auto
        ultimately show ?thesis by simp
      qed
    qed
  qed
qed

lemma raw_recovery_cases:
  obtains (abort) e where "raw_recovery env fl output_dir = aborted e initial_state"
  | (abort') e where "raw_recovery env fl output_dir = aborted e start_state"
  | (scan) byte rest where
      "raw_recovery env fl output_dir =
         conclude (scan_loop env fl (total_sectors_of env 512) output_dir start_state byte rest)"
proof (cases "makedirs_ok env \<and> drive_exists env \<and> drive_open_ok env \<and> read_ok env 0")
  case True
  obtain byte rest where "read_block (blocks_of 512 (drive_data env)) = (byte, rest)"
    by (cases "read_block (blocks_of 512 (drive_data env))")
  with True have "raw_recovery env fl output_dir =
      conclude (scan_loop env fl (total_sectors_of env 512) output_dir start_state byte rest)"
    by (simp add: raw_recovery_def)
  then show ?thesis by (rule scan)
next
  case False
  then consider "\<not> makedirs_ok env" | "makedirs_ok env" "\<not> drive_exists env"
    | "makedirs_ok env" "drive_exists env" "\<not> drive_open_ok env"
    | "makedirs_ok env" "drive_exists env" "drive_open_ok env" "\<not> read_ok env 0"
    by blast
  then show ?thesis
  proof cases
    case 1
    then have "raw_recovery env fl output_dir = aborted MakedirsFailed initial_state"
      by (simp add: raw_recovery_def)
    then show ?thesis by (rule abort)
  next
    case 2
    then have "raw_recovery env fl output_dir = aborted DriveNotFound start_state"
      by (simp add: raw_recovery_def)
    then show ?thesis by (rule abort')
  next
    case 3
    then have "raw_recovery env fl output_dir = aborted DriveOpenFailed start_state"
      by (simp add: raw_recovery_def)
    then show ?thesis by (rule abort')
  next
    case 4
    then have "raw_recovery env fl output_dir = aborted (ReadFailure 0) start_state"
      by (simp add: raw_recovery_def)
    then show ?thesis by (rule abort')
  qed
qed

lemma conclude_returned:
  "returned (conclude res) = [] \<or> returned (conclude res) = recovered_files (loop_state res)"
  by (cases res rule: conclude.cases) (simp_all add: aborted_def)

lemma conclude_emitted:
  "(\<exists>e. emitted (conclude res) = events (loop_state res) @ [Error e]) \<or>
   (\<exists>m. emitted (conclude res) = events (loop_state res) @ [Progress 98, Status m])"
  by (cases res rule: conclude.cases) (simp_all add: aborted_def)

subsection \<open>Every carved record is \<open>Recovered\<close>\<close>

definition all_recovered :: "scan_state \<Rightarrow> bool" where
  "all_recovered st = list_all (\<lambda>r. status r = ''Recovered'') (recovered_files st)"

lemma all_recovered_file_tick:
  "all_recovered s \<Longrightarrow> all_recovered (file_tick fl total_sectors ft s)"
  by (simp add: all_recovered_def file_tick_def Let_def emit_def)

lemma all_recovered_scan_block:
  assumes "all_recovered s"
  shows "all_recovered (state_of (scan_block env fl total_sectors output_dir s b r))"
  using assms
proof (rule scan_block_invariant [rotated -1])
  show "\<And>s ft. all_recovered s \<Longrightarrow> all_recovered (file_tick fl total_sectors ft s)"
    by (rule all_recovered_file_tick)
qed (simp_all add: all_recovered_def emit_def sink_write_def finish_candidate_def)

lemma all_recovered_next_block:
  "all_recovered s \<Longrightarrow> all_recovered (state_of (next_block env fl total_sectors s r))"
  by (simp add: next_block_def all_recovered_def Let_def emit_def split: prod.splits)

lemma all_recovered_scan_loop:
  "all_recovered st \<Longrightarrow>
   all_recovered (loop_state (scan_loop env fl total_sectors output_dir st byte rest))"
  by (rule scan_loop_invariant) (simp_all add: all_recovered_scan_block all_recovered_next_block)

text \<open>A stream of two blocks: a JPEG start signature in the first, the end marker in the second.\<close>

definition stream_two_blocks :: "byte list" where
  "stream_two_blocks = [0xff, 0xd8, 0xff, 0xe0] @ replicate 508 0 @ [0xff, 0xd9]"

lemma run_two_blocks:
  "returned (raw_recovery (healthy stream_two_blocks) exact_ops ''out'') =
     [\<lparr>path = ''out/recovered_0.jpg'', fsize = 514, ftype = ''jpg'', status = ''Recovered'',
       hash = None\<rparr>]"
  by code_simp

lemma run_two_blocks_progress:
  "progress_values (emitted (raw_recovery (healthy stream_two_blocks) exact_ops ''out'')) = [90, 98]"
  by code_simp

text \<open>
  Claim C10. Every record in the list that raw carving returns has the status \<open>Recovered\<close>,
  whatever ended its file (end marker, end of the medium, cancellation); so none has one of
  the statuses \<open>Missing\<close>, \<open>OK\<close>, \<open>Corrupted\<close>, \<open>Corrupted (not moved)\<close>, which only the
  verifier assigns.
\<close>

theorem carved_records_recovered:
  "list_all (\<lambda>r. status r = ''Recovered'' \<and>
               status r \<notin> {''Missing'', ''OK'', ''Corrupted'', ''Corrupted (not moved)''})
     (returned (raw_recovery env fl output_dir))"
proof -
  have start: "all_recovered start_state"
    by (simp add: all_recovered_def start_state_def emit_def initial_state_def)
  have "list_all (\<lambda>r. status r = ''Recovered'') (returned (raw_recovery env fl output_dir))"
  proof (cases rule: raw_recovery_cases [of env fl output_dir])
    case (abort e)
    then show ?thesis by (simp add: aborted_def)
  next
    case (abort' e)
    then show ?thesis by (simp add: aborted_def)
  next
    case (scan byte rest)
    have "all_recovered (loop_state
            (scan_loop env fl (total_sectors_of env 512) output_dir start_state byte rest))"
      using start by (rule all_recovered_scan_loop)
    with conclude_returned [of "scan_loop env fl (total_sectors_of env 512) output_dir
            start_state byte rest"] scan
    show ?thesis by (auto simp: all_recovered_def)
  qed
  then show ?thesis
    by (simp add: list_all_iff)
qed

theorem carved_records_recovered_witness:
  "map status (returned (raw_recovery (healthy stream_two_blocks) exact_ops ''out'')) =
     [''Recovered'']"
  using carved_records_recovered [of "healthy stream_two_blocks" exact_ops "''out''"]
  by (simp add: run_two_blocks)

subsection \<open>The progress values\<close>

definition progress_ok :: "scan_state \<Rightarrow> bool" where
  "progress_ok st =
     (sorted_wrt (<) (progress_values (events st)) \<and>
      list_all (\<lambda>p. p \<le> prev_progress st) (progress_values (events st)) \<and>
      prev_progress st \<le> 95)"

lemma progress_ok_file_tick:
  "progress_ok s \<Longrightarrow> progress_ok (file_tick fl total_sectors ft s)"
  by (auto simp: progress_ok_def file_tick_def Let_def emit_def sorted_wrt_append list_all_iff)

lemma progress_ok_scan_block:
  assumes "progress_ok s"
  shows "progress_ok (state_of (scan_block env fl total_sectors output_dir s b r))"
  using assms
proof (rule scan_block_invariant [rotated -1])
  show "\<And>s ft. progress_ok s \<Longrightarrow> progress_ok (file_tick fl total_sectors ft s)"
    by (rule progress_ok_file_tick)
qed (simp_all add: progress_ok_def emit_def sink_write_def finish_candidate_def)

lemma progress_ok_next_block:
  "progress_ok s \<Longrightarrow> progress_ok (state_of (next_block env fl total_sectors s r))"
  by (auto simp: next_block_def progress_ok_def Let_def emit_def sorted_wrt_append list_all_iff
        split: prod.splits)

lemma progress_ok_scan_loop:
  "progress_ok st \<Longrightarrow>
   progress_ok (loop_state (scan_loop env fl total_sectors output_dir st byte rest))"
  by (rule scan_loop_invariant) (simp_all add: progress_ok_scan_block progress_ok_next_block)

text \<open>
  Claim C5. For every input stream (and every outcome of the reads and writes), the progress
  values emitted during one scan are strictly increasing, so a value is emitted only when it
  exceeds the one emitted before it, and every value but the last is at most 95.
\<close>

theorem progress_increasing_capped:
  "sorted_wrt (<) (progress_values (emitted (raw_recovery env fl output_dir))) \<and>
   list_all (\<lambda>p. p \<le> 95) (butlast (progress_values (emitted (raw_recovery env fl output_dir))))"
proof (cases rule: raw_recovery_cases [of env fl output_dir])
  case (abort e)
  then show ?thesis by (simp add: aborted_def initial_state_def)
next
  case (abort' e)
  then show ?thesis by (simp add: aborted_def initial_state_def start_state_def emit_def)
next
  case (scan byte rest)
  define res where
    "res = scan_loop env fl (total_sectors_of env 512) output_dir start_state byte rest"
  have "progress_ok start_state"
    by (simp add: progress_ok_def start_state_def emit_def initial_state_def)
  then have ok: "progress_ok (loop_state res)"
    unfolding res_def by (rule progress_ok_scan_loop)
  from ok have sorted: "sorted_wrt (<) (progress_values (events (loop_state res)))"
    by (simp add: progress_ok_def)
  from ok have all95: "\<And>p. p \<in> set (progress_values (events (loop_state res))) \<Longrightarrow> p \<le> 95"
    by (auto simp: progress_ok_def list_all_iff)
  from conclude_emitted [of res] show ?thesis
  proof (elim disjE exE)
    fix e assume "emitted (conclude res) = events (loop_state res) @ [Error e]"
    with sorted scan show ?thesis
      by (auto simp: res_def [symmetric] list_all_iff dest!: in_set_butlastD all95)
  next
    fix m assume "emitted (conclude res) = events (loop_state res) @ [Progress 98, Status m]"
    with sorted scan show ?thesis
      by (auto simp: res_def [symmetric] list_all_iff sorted_wrt_append dest!: all95)
  qed
qed

theorem progress_increasing_capped_witness:
  "sorted_wrt (<)
     (progress_values (emitted (raw_recovery (healthy stream_two_blocks) exact_ops ''out''))) \<and>
   progress_values (emitted (raw_recovery (healthy stream_two_blocks) exact_ops ''out'')) =
     [90, 98]"
  using progress_increasing_capped [of "healthy stream_two_blocks" exact_ops "''out''"]
  by (simp add: run_two_blocks_progress)

subsection \<open>Failures end the scan\<close>

lemma blocks_of_nonempty: "[] \<notin> set (blocks_of n bs)"
proof (induction n bs rule: blocks_of.induct)
  case (1 n bs)
  show ?case
  proof (cases "n = 0 \<or> bs = []")
    case True
    then show ?thesis by (subst blocks_of.simps) simp
  next
    case False
    with "1.IH" show ?thesis by (subst blocks_of.simps) simp
  qed
qed

lemma offs_file_tick [simp]: "offs (file_tick fl total_sectors ft st) = offs st + 1"
  by (simp add: file_tick_def Let_def emit_def)

lemma offs_sink_write [simp]: "offs (sink_write p bs st) = offs st"
  by (simp add: sink_write_def)

lemma offs_begin_file [simp]: "offs (begin_file p pos byte st) = offs st"
  by (simp add: begin_file_def open_sink_def)

lemma offs_finish_candidate [simp]: "offs (finish_candidate p ft st) = offs st"
  by (simp add: finish_candidate_def emit_def)




lemma conclude_Inr_returned:
  "returned (conclude res) \<noteq> [] \<Longrightarrow> \<exists>s. res = Inr s"
  by (cases res rule: conclude.cases) (simp_all add: aborted_def)

lemma conclude_Inl:
  "res = Inl (e, s) \<Longrightarrow>
   returned (conclude res) = [] \<and> last (emitted (conclude res)) = Error e"
  by (simp add: aborted_def)


lemma length_read_block:
  "read_block bs = (byte, rest) \<Longrightarrow> [] \<notin> set bs \<Longrightarrow>
   (bs = [] \<and> byte = [] \<and> rest = []) \<or> (bs = byte # rest \<and> byte \<noteq> [])"
  by (auto simp: read_block_def split: list.splits)








definition write_fails_at :: "nat \<Rightarrow> nat \<Rightarrow> scan_env \<Rightarrow> scan_env" where
  "write_fails_at c w env = env\<lparr>sink_write_ok := (\<lambda>c' w'. \<not> (c' = c \<and> w' = w))\<rparr>"

lemma run_write_failure:
  "returned (raw_recovery (write_fails_at 0 1 (healthy stream_two_blocks)) exact_ops ''out'') = []"
  "emitted (raw_recovery (write_fails_at 0 1 (healthy stream_two_blocks)) exact_ops ''out'') =
     [Status ''Scanning drive sectors for image files...'',
      Progress 90, Status ''Recovering JPG file (0% complete)'', Error (WriteFailure 0 1)]"
  by code_simp+

text \<open>
  Claim C4 as stated fails: the second write of the only candidate fails, the scan stops there
  with an error, and the list returned holds no record for the candidate.
\<close>

theorem write_failure_discards_record:
  "emitted (raw_recovery (write_fails_at 0 1 (healthy stream_two_blocks)) exact_ops ''out'') =
     [Status ''Scanning drive sectors for image files...'',
      Progress 90, Status ''Recovering JPG file (0% complete)'', Error (WriteFailure 0 1)] \<and>
   returned (raw_recovery (write_fails_at 0 1 (healthy stream_two_blocks)) exact_ops ''out'') = []"
  by (intro conjI run_write_failure)

subsection \<open>Which start signatures the scan detects\<close>

text \<open>An environment in which nothing fails and the scan is not cancelled.\<close>

definition no_failures :: "scan_env \<Rightarrow> bool" where
  "no_failures env =
     (makedirs_ok env \<and> drive_exists env \<and> drive_open_ok env \<and> (\<forall>n. read_ok env n) \<and>
      (\<forall>c. sink_open_ok env c) \<and> (\<forall>c w. sink_write_ok env c w) \<and> stop_after env = None)"

lemma no_failures_running: "no_failures env \<Longrightarrow> is_running env st"
  by (simp add: no_failures_def is_running_def)

lemma recovered_files_next_block:
  "recovered_files (state_of (next_block env fl total_sectors st rest)) = recovered_files st"
  by (simp add: next_block_def Let_def emit_def split: prod.splits)

lemma scan_loop_no_signature:
  "\<forall>b\<in>set (byte # rest). find_start b = None \<Longrightarrow>
   recovered_files (loop_state (scan_loop env fl total_sectors output_dir st byte rest))
     = recovered_files st"
proof (induction rest arbitrary: st byte)
  case Nil
  show ?case
  proof (cases "next_block env fl total_sectors st []")
    case (Inl a)
    then show ?thesis using Nil recovered_files_next_block [of env fl total_sectors st "[]"]
      by (subst scan_loop.simps) (cases a, simp add: scan_block_def)
  next
    case (Inr c)
    then obtain s' where c: "c = (s', [], [])"
      by (auto simp: next_block_def read_block_def Let_def split: if_split_asm)
    have "scan_loop env fl total_sectors output_dir s' [] [] = Inr s'"
      by (subst scan_loop.simps) simp
    then show ?thesis
      using Nil Inr c recovered_files_next_block [of env fl total_sectors st "[]"]
      by (subst scan_loop.simps) (simp add: scan_block_def)
  qed
next
  case (Cons b rest)
  show ?case
  proof (cases "next_block env fl total_sectors st (b # rest)")
    case (Inl a)
    then show ?thesis
      using Cons.prems recovered_files_next_block [of env fl total_sectors st "b # rest"]
      by (subst scan_loop.simps) (cases a, simp add: scan_block_def)
  next
    case (Inr c)
    then obtain s' where c: "c = (s', b, rest)"
      by (auto simp: next_block_def read_block_def Let_def split: if_split_asm)
    have "recovered_files (loop_state (scan_loop env fl total_sectors output_dir s' b rest))
            = recovered_files s'"
      using Cons.prems by (intro Cons.IH) simp
    then show ?thesis
      using Cons.prems Inr c recovered_files_next_block [of env fl total_sectors st "b # rest"]
      by (subst scan_loop.simps) (simp add: scan_block_def)
  qed
qed

lemma carve_file_ok:
  "no_failures env \<Longrightarrow> \<exists>s r. carve_file env fl total_sectors ft fp st rest = Inr (s, r)"
proof (induction rest arbitrary: st)
  case Nil
  then show ?case by (simp add: carve_file_Nil no_failures_def)
next
  case (Cons byte rest)
  from Cons.IH [OF Cons.prems] Cons.prems show ?case
    by (cases "find_bytes (end_signature ft) byte")
       (simp_all add: carve_file_Cons no_failures_def)
qed

lemma scan_block_ok:
  assumes "no_failures env"
  shows "\<exists>s r. scan_block env fl total_sectors output_dir st byte rest = Inr (s, r) \<and>
               (find_start byte \<noteq> None \<longrightarrow> recovered_files s \<noteq> [])"
proof (cases "find_start byte")
  case None
  then show ?thesis by (simp add: scan_block_def)
next
  case (Some a)
  obtain ft pos where a: "a = (ft, pos)" by (cases a)
  define fp where "fp = candidate_path output_dir (rcvd st) ft"
  from carve_file_ok [OF assms] obtain s r where
    "carve_file env fl total_sectors ft fp (begin_file fp pos byte st) rest = Inr (s, r)"
    by blast
  with Some a assms show ?thesis
    by (simp add: scan_block_def carve_candidate_def Let_def fp_def [symmetric] no_failures_def
          finish_candidate_def)
qed

lemma next_block_ok:
  "no_failures env \<Longrightarrow>
   \<exists>s b r. next_block env fl total_sectors st rest = Inr (s, b, r) \<and> read_block rest = (b, r)
        \<and> recovered_files s = recovered_files st"
  by (simp add: next_block_def no_failures_def Let_def emit_def split: prod.splits)

lemma scan_loop_ok:
  "no_failures env \<Longrightarrow> \<exists>s. scan_loop env fl total_sectors output_dir st byte rest = Inr s"
proof (induction env fl total_sectors output_dir st byte rest rule: scan_loop.induct)
  case (1 env fl total_sectors output_dir st byte rest)
  show ?case
  proof (cases "byte = [] \<or> \<not> is_running env st")
    case True
    then show ?thesis by (subst scan_loop.simps) simp
  next
    case False
    from scan_block_ok [OF "1.prems"] obtain s' r' where
      blk: "scan_block env fl total_sectors output_dir st byte rest = Inr (s', r')" by blast
    from next_block_ok [OF "1.prems"] obtain s'' b'' r'' where
      nxt: "next_block env fl total_sectors s' r' = Inr (s'', b'', r'')"
      by blast
    from "1.IH" [OF False blk refl nxt refl refl "1.prems"]
    show ?thesis using False blk nxt by (subst scan_loop.simps) simp
  qed
qed

definition has_records :: "scan_state \<Rightarrow> bool" where
  "has_records st = (recovered_files st \<noteq> [])"

lemma has_records_scan_block:
  assumes "has_records s"
  shows "has_records (state_of (scan_block env fl total_sectors output_dir s b r))"
  using assms
  by (rule scan_block_invariant [rotated -1])
     (simp_all add: has_records_def file_tick_def Let_def emit_def sink_write_def
        finish_candidate_def)

lemma has_records_scan_loop:
  "has_records st \<Longrightarrow>
   has_records (loop_state (scan_loop env fl total_sectors output_dir st byte rest))"
  by (rule scan_loop_invariant)
     (simp_all add: has_records_scan_block, simp add: has_records_def recovered_files_next_block)

lemma scan_loop_signature:
  assumes "no_failures env"
  shows "byte \<noteq> [] \<Longrightarrow> [] \<notin> set rest \<Longrightarrow> \<exists>b\<in>set (byte # rest). find_start b \<noteq> None \<Longrightarrow>
         has_records (loop_state (scan_loop env fl total_sectors output_dir st byte rest))"
proof (induction rest arbitrary: st byte)
  case Nil
  from scan_block_ok [OF assms, of fl total_sectors output_dir st byte "[]"] Nil obtain s' r' where
    blk: "scan_block env fl total_sectors output_dir st byte [] = Inr (s', r')"
    and rec: "has_records s'" by (auto simp: has_records_def)
  from next_block_ok [OF assms, of fl total_sectors s' r'] obtain s'' b'' r'' where
    nxt: "next_block env fl total_sectors s' r' = Inr (s'', b'', r'')"
    and rec': "has_records s''" using rec by (auto simp: has_records_def)
  have "scan_loop env fl total_sectors output_dir st byte [] =
        scan_loop env fl total_sectors output_dir s'' b'' r''"
    using Nil(1) blk nxt no_failures_running [OF assms] by (subst scan_loop.simps) simp
  with has_records_scan_loop [OF rec'] show ?case by simp
next
  case (Cons b rest)
  show ?case
  proof (cases "find_start byte")
    case (Some a)
    from scan_block_ok [OF assms, of fl total_sectors output_dir st byte "b # rest"] Some
    obtain s' r' where
      blk: "scan_block env fl total_sectors output_dir st byte (b # rest) = Inr (s', r')"
      and rec: "has_records s'" by (auto simp: has_records_def)
    from next_block_ok [OF assms, of fl total_sectors s' r'] obtain s'' b'' r'' where
      nxt: "next_block env fl total_sectors s' r' = Inr (s'', b'', r'')"
      and rec': "has_records s''" using rec by (auto simp: has_records_def)
    have "scan_loop env fl total_sectors output_dir st byte (b # rest) =
          scan_loop env fl total_sectors output_dir s'' b'' r''"
      using Cons.prems(1) blk nxt no_failures_running [OF assms] by (subst scan_loop.simps) simp
    with has_records_scan_loop [OF rec'] show ?thesis by simp
  next
    case None
    from next_block_ok [OF assms, of fl total_sectors st "b # rest"] obtain s' where
      nxt: "next_block env fl total_sectors st (b # rest) = Inr (s', b, rest)"
      by (auto simp: read_block_def)
    have "has_records (loop_state (scan_loop env fl total_sectors output_dir s' b rest))"
      using Cons.prems None by (intro Cons.IH) auto
    moreover have "scan_loop env fl total_sectors output_dir st byte (b # rest) =
          scan_loop env fl total_sectors output_dir s' b rest"
      using Cons.prems(1) None nxt no_failures_running [OF assms]
      by (subst scan_loop.simps) (simp add: scan_block_def)
    ultimately show ?thesis by simp
  qed
qed

text \<open>
  On a scan without failures a file is recovered exactly when some single block of the stream
  holds a whole start signature.
\<close>

lemma recovery_iff_signature:
  assumes "no_failures env"
  shows "(returned (raw_recovery env fl output_dir) \<noteq> []) =
         (\<exists>b\<in>set (blocks_of 512 (drive_data env)). find_start b \<noteq> None)"
proof -
  obtain byte rest where rb: "read_block (blocks_of 512 (drive_data env)) = (byte, rest)"
    by (cases "read_block (blocks_of 512 (drive_data env))")
  define res where
    "res = scan_loop env fl (total_sectors_of env 512) output_dir start_state byte rest"
  from scan_loop_ok [OF assms] obtain s where s: "res = Inr s"
    unfolding res_def by blast
  have rr: "raw_recovery env fl output_dir = conclude res"
    using assms rb by (simp add: raw_recovery_def no_failures_def res_def)
  have ret: "returned (raw_recovery env fl output_dir) = recovered_files (loop_state res)"
    using rr s by simp
  from length_read_block [OF rb blocks_of_nonempty]
  show ?thesis
  proof (elim disjE conjE)
    assume "blocks_of 512 (drive_data env) = []" "byte = []" "rest = []"
    moreover have "scan_loop env fl (total_sectors_of env 512) output_dir start_state [] []
                   = Inr start_state"
      by (subst scan_loop.simps) simp
    ultimately show ?thesis
      using ret by (simp add: res_def start_state_def emit_def initial_state_def)
  next
    assume bs: "blocks_of 512 (drive_data env) = byte # rest" and ne: "byte \<noteq> []"
    have ne': "[] \<notin> set rest"
      using blocks_of_nonempty [of 512 "drive_data env"] bs by auto
    show ?thesis
    proof (cases "\<forall>b\<in>set (byte # rest). find_start b = None")
      case False
      then have ex: "\<exists>b\<in>set (byte # rest). find_start b \<noteq> None" by blast
      from scan_loop_signature [OF assms ne ne' ex] have "returned (raw_recovery env fl output_dir) \<noteq> []"
        using ret by (simp add: res_def has_records_def)
      with ex bs show ?thesis by simp
    next
      case True
      from scan_loop_no_signature [OF True] have "returned (raw_recovery env fl output_dir) = []"
        using ret by (simp add: res_def start_state_def emit_def initial_state_def)
      with True bs show ?thesis by simp
    qed
  qed
qed

lemma no_failures_healthy: "no_failures (healthy bs)"
  by (simp add: no_failures_def healthy_def)

text \<open>
  A JPEG whose start signature has two bytes at the end of the first block and two at the start
  of the second.
\<close>

definition stream_straddle :: "byte list" where
  "stream_straddle = replicate 510 0 @ [0xff, 0xd8, 0xff, 0xe0] @ replicate 8 0 @ [0xff, 0xd9]"

lemma run_straddle:
  "find_start stream_straddle = Some (''jpg'', 510)"
  "returned (raw_recovery (healthy stream_straddle) exact_ops ''out'') = []"
  "map ftype (returned (raw_recovery (healthy (drop 2 stream_straddle)) exact_ops ''out'')) =
     [''jpg'']"
  by code_simp+

text \<open>
  Claim C1 as stated fails: the signature is in the stream at offset 510, the scan finds
  nothing, and the same bytes two places earlier (the signature inside the first block) are
  found.
\<close>

theorem straddling_signature_missed:
  "find_start stream_straddle = Some (''jpg'', 510) \<and>
   returned (raw_recovery (healthy stream_straddle) exact_ops ''out'') = [] \<and>
   map ftype (returned (raw_recovery (healthy (drop 2 stream_straddle)) exact_ops ''out'')) =
     [''jpg'']"
  by (intro conjI run_straddle)

subsection \<open>The end marker\<close>

lemma find_bytes_bound: "find_bytes sub xs = Some k \<Longrightarrow> k + length sub \<le> length xs"
proof (induction xs arbitrary: k)
  case Nil
  then show ?case by (simp split: if_split_asm)
next
  case (Cons x xs)
  show ?case
  proof (cases "prefix sub (x # xs)")
    case True
    with Cons.prems show ?thesis by (auto dest: prefix_length_le)
  next
    case False
    with Cons.prems obtain k' where "find_bytes sub xs = Some k'" "k = Suc k'" by auto
    with Cons.IH [of k'] show ?thesis by simp
  qed
qed

lemma fields_file_tick [simp]:
  "rcvd (file_tick fl total_sectors ft st) = rcvd st"
  "file_sectors (file_tick fl total_sectors ft st) = file_sectors st + 1"
  "disk (file_tick fl total_sectors ft st) = disk st"
  "recovered_files (file_tick fl total_sectors ft st) = recovered_files st"
  by (simp_all add: file_tick_def Let_def emit_def)

lemma file_bytes_file_tick [simp]:
  "file_bytes (file_tick fl total_sectors ft st) p = file_bytes st p"
  by (simp add: file_bytes_def)

lemma fields_sink_write [simp]:
  "rcvd (sink_write p bs st) = rcvd st"
  "file_sectors (sink_write p bs st) = file_sectors st"
  "recovered_files (sink_write p bs st) = recovered_files st"
  "file_bytes (sink_write p bs st) p = file_bytes st p @ bs"
  "disk (sink_write p bs st) p = Some (file_bytes st p @ bs)"
  by (simp_all add: sink_write_def file_bytes_def)

lemma fields_begin_file [simp]:
  "rcvd (begin_file p pos byte st) = rcvd st"
  "file_sectors (begin_file p pos byte st) = 0"
  "recovered_files (begin_file p pos byte st) = recovered_files st"
  "file_bytes (begin_file p pos byte st) p = drop pos byte"
  by (simp_all add: begin_file_def open_sink_def sink_write_def file_bytes_def)

lemma is_running_offs: "offs s = offs t \<Longrightarrow> is_running env s = is_running env t"
  by (simp add: is_running_def split: option.splits)

lemma carve_file_end_marker:
  assumes "is_running env st" "read_ok env (offs st + 1)" "b \<noteq> []"
    and "sink_write_ok env (rcvd st) (file_sectors st + 1)"
    and "find_bytes (end_signature ft) b = Some k"
  shows "carve_file env fl total_sectors ft fp st (b # bs) =
           Inr (sink_write fp (take (k + (if ft = ''jpg'' then 2 else 12)) b)
                  (file_tick fl total_sectors ft st), bs)"
  using assms by (simp add: carve_file_Cons)

text \<open>
  Claim C6, as the code has it. When the end signature is found at offset \<open>k\<close> of a block, the
  sink receives the slice of the block up to \<open>k + 2\<close> (JPEG) or \<open>k + 12\<close> (PNG), and the scan
  looks at nothing but \<open>k\<close>: for a JPEG exactly 2 bytes are retained past \<open>k\<close>; for a PNG 12,
  or all the bytes left in the block when they are fewer than 12 (never fewer than the 8 of the
  matched pattern).
\<close>

theorem end_marker_retained_bytes:
  assumes "is_running env st" "read_ok env (offs st + 1)" "b \<noteq> []"
    and "sink_write_ok env (rcvd st) (file_sectors st + 1)"
    and "find_bytes (end_signature ft) b = Some k"
  shows "\<exists>st'. carve_file env fl total_sectors ft fp st (b # bs) = Inr (st', bs) \<and>
           file_bytes st' fp = file_bytes st fp @ take (k + (if ft = ''jpg'' then 2 else 12)) b \<and>
           length (file_bytes st' fp) - length (file_bytes st fp) - k =
             (if ft = ''jpg'' then 2 else min 12 (length b - k)) \<and>
           (if ft = ''jpg'' then k + 2 \<le> length b else k + 8 \<le> length b)"
proof -
  from find_bytes_bound [OF assms(5)]
  have bound: "if ft = ''jpg'' then k + 2 \<le> length b else k + 8 \<le> length b"
    by (simp add: end_signature_def split: if_split_asm)
  have "carve_file env fl total_sectors ft fp st (b # bs) =
           Inr (sink_write fp (take (k + (if ft = ''jpg'' then 2 else 12)) b)
                  (file_tick fl total_sectors ft st), bs)"
    using assms by (rule carve_file_end_marker)
  moreover have "length (take (k + (if ft = ''jpg'' then 2 else 12)) b) - k =
      (if ft = ''jpg'' then 2 else min 12 (length b - k))"
    using bound by (auto simp: min_def)
  ultimately show ?thesis using bound by (intro exI [of _ "sink_write fp
      (take (k + (if ft = ''jpg'' then 2 else 12)) b) (file_tick fl total_sectors ft st)"]) simp
qed

lemma candidate_path_first: "candidate_path ''out'' 0 ''jpg'' = ''out/recovered_0.jpg''"
  by code_simp

lemma find_in_small_blocks:
  "find_start [0xff, 0xd8, 0xff, 0xe0] = Some (''jpg'', 0)"
  "find_bytes (end_signature ''jpg'') [0xff, 0xd9, 0x89] = Some 0"
  "find_bytes (end_signature ''jpg'') [0x01] = None"
  "find_bytes (end_signature ''png'') [0x00, 0x00, 0x49, 0x45, 0x4e, 0x44, 0xae, 0x42, 0x60, 0x82]
     = Some 2"
  by code_simp+

lemma healthy_fields:
  "is_running (healthy bs) st" "read_ok (healthy bs) n" "sink_open_ok (healthy bs) c"
  "sink_write_ok (healthy bs) c w"
  by (simp_all add: healthy_def is_running_def)

lemma start_state_fields:
  "rcvd start_state = 0" "recovered_files start_state = []" "file_sectors start_state = 0"
  "offs start_state = 0" "file_bytes start_state p = []"
  by (simp_all add: start_state_def initial_state_def emit_def file_bytes_def)

theorem end_marker_retained_bytes_witness:
  "\<exists>st'. carve_file (healthy []) exact_ops 1 ''png'' ''f'' start_state
            [[0x00, 0x00, 0x49, 0x45, 0x4e, 0x44, 0xae, 0x42, 0x60, 0x82]] = Inr (st', []) \<and>
         file_bytes st' ''f'' = [0x00, 0x00, 0x49, 0x45, 0x4e, 0x44, 0xae, 0x42, 0x60, 0x82] \<and>
         length (file_bytes st' ''f'') - 2 = 8"
  using end_marker_retained_bytes [of "healthy []" start_state
      "[0x00, 0x00, 0x49, 0x45, 0x4e, 0x44, 0xae, 0x42, 0x60, 0x82]" "''png''" 2
      exact_ops 1 "''f''" "[]"]
  by (simp add: find_in_small_blocks healthy_fields start_state_fields eval_nat_numeral
        del: find_bytes.simps)

text \<open>A JPEG of two blocks whose end marker is followed, in the same block, by a PNG signature.\<close>

definition stream_jpg_png :: "byte list" where
  "stream_jpg_png = stream_two_blocks @ png_signature"

lemma run_jpg_png:
  "find_start (drop 2 (blocks_of 512 stream_jpg_png ! 1)) = Some (''png'', 0)"
  "map ftype (returned (raw_recovery (healthy stream_jpg_png) exact_ops ''out'')) = [''jpg'']"
  by code_simp+

text \<open>
  Claim C2 as stated fails: the rest of the second block, after the JPEG end marker, starts
  with a PNG signature, and the scan returns the JPEG alone.
\<close>

theorem block_remainder_not_rescanned:
  "find_start (drop 2 (blocks_of 512 stream_jpg_png ! 1)) = Some (''png'', 0) \<and>
   map ftype (returned (raw_recovery (healthy stream_jpg_png) exact_ops ''out'')) = [''jpg'']"
  by (intro conjI run_jpg_png)

text \<open>
  A PNG of two blocks whose \<open>IEND\<close> pattern fills the last 8 bytes of the second block, and
  four more bytes in a third block.
\<close>

definition stream_png_edge :: "byte list" where
  "stream_png_edge =
     png_signature @ replicate 504 0 @ replicate 504 0 @ end_signature ''png'' @ [1, 2, 3, 4]"

lemma run_png_edge:
  "find_bytes (end_signature ''png'') (blocks_of 512 stream_png_edge ! 1) = Some 504"
  "map fsize (returned (raw_recovery (healthy stream_png_edge) exact_ops ''out'')) =
     [512 + (504 + 8)]"
  by code_simp+

text \<open>
  Claim C6 as stated fails: the end signature is at offset 504 of the second block, the stream
  goes on for four bytes, and the file has 8 bytes past that offset, not 12.
\<close>

theorem png_marker_cut_at_block_end:
  "find_bytes (end_signature ''png'') (blocks_of 512 stream_png_edge ! 1) = Some 504 \<and>
   map fsize (returned (raw_recovery (healthy stream_png_edge) exact_ops ''out'')) =
     [512 + (504 + 8)]"
  by (intro conjI run_png_edge)

subsection \<open>The size estimate of the file in progress\<close>

definition estimate_tracks :: "scan_state \<Rightarrow> bool" where
  "estimate_tracks st = (estimated_file_size st = max 1000 (2 * file_sectors st))"

lemma estimate_tracks_file_tick:
  "estimate_tracks s \<Longrightarrow> estimate_tracks (file_tick fl total_sectors ft s)"
  by (auto simp: estimate_tracks_def file_tick_def Let_def emit_def)

lemma estimate_tracks_carve_file:
  "estimate_tracks st \<Longrightarrow>
   estimate_tracks (state_of (carve_file env fl total_sectors ft fp st rest))"
  by (rule carve_file_invariant)
     (simp_all add: estimate_tracks_file_tick, simp add: estimate_tracks_def sink_write_def)

text \<open>
  Two states that differ at most in the size estimate and in the status messages sent.
\<close>

definition same_bar :: "scan_state \<Rightarrow> scan_state \<Rightarrow> bool" where
  "same_bar s t =
     (offs s = offs t \<and> processed_sectors s = processed_sectors t \<and>
      prev_progress s = prev_progress t \<and> rcvd s = rcvd t \<and>
      recovered_files s = recovered_files t \<and> file_sectors s = file_sectors t \<and>
      progress_values (events s) = progress_values (events t) \<and> disk s = disk t)"

lemma same_bar_file_tick:
  "same_bar s t \<Longrightarrow> same_bar (file_tick fl total_sectors ft s) (file_tick fl total_sectors ft t)"
  by (simp add: same_bar_def file_tick_def Let_def emit_def)

lemma same_bar_sink_write:
  "same_bar s t \<Longrightarrow> same_bar (sink_write p bs s) (sink_write p bs t)"
  by (simp add: same_bar_def sink_write_def file_bytes_def)

lemma same_bar_carve_file:
  "same_bar s t \<Longrightarrow>
   same_bar (state_of (carve_file env fl total_sectors ft fp s rest))
            (state_of (carve_file env fl total_sectors ft fp t rest))"
proof (induction rest arbitrary: s t)
  case Nil
  then have o: "offs s = offs t"
    by (simp add: same_bar_def)
  with Nil is_running_offs [OF o, of env] show ?case
    by (simp add: carve_file_Nil same_bar_file_tick)
next
  case (Cons byte rest)
  have o: "offs s = offs t"
    using Cons.prems by (simp add: same_bar_def)
  note run = is_running_offs [OF o, of env]
  note tick = same_bar_file_tick [OF Cons.prems, of fl total_sectors ft]
  then have w: "rcvd (file_tick fl total_sectors ft s) = rcvd (file_tick fl total_sectors ft t)"
    "file_sectors (file_tick fl total_sectors ft s) = file_sectors (file_tick fl total_sectors ft t)"
    by (simp_all add: same_bar_def)
  from Cons.IH [OF same_bar_sink_write [OF tick]] Cons.prems run o w tick show ?case
    by (cases "find_bytes (end_signature ft) byte")
       (simp_all add: carve_file_Cons same_bar_sink_write)
qed

text \<open>
  Claim C7, as the code has it. The estimate of the file in progress starts at 1000 blocks
  and, whenever the number of blocks read for the file exceeds half of it, is set to twice that
  number: at the end of the file's loop it is the larger of 1000 and twice the blocks read.
  The progress values that the loop emits do not depend on the estimate it is started with, so
  the file's own percentage reaches the status message only.
\<close>

theorem estimate_follows_file_not_bar:
  "estimated_file_size
     (state_of (carve_file env fl total_sectors ft fp (begin_file fp pos byte st) rest)) =
   max 1000 (2 * file_sectors
     (state_of (carve_file env fl total_sectors ft fp (begin_file fp pos byte st) rest))) \<and>
   progress_values (events (state_of
     (carve_file env fl total_sectors ft fp (st'\<lparr>estimated_file_size := e\<rparr>) rest))) =
   progress_values (events (state_of (carve_file env fl total_sectors ft fp st' rest)))"
proof
  have "estimate_tracks (begin_file fp pos byte st)"
    by (simp add: estimate_tracks_def begin_file_def open_sink_def sink_write_def)
  from estimate_tracks_carve_file [OF this]
  show "estimated_file_size
     (state_of (carve_file env fl total_sectors ft fp (begin_file fp pos byte st) rest)) =
   max 1000 (2 * file_sectors
     (state_of (carve_file env fl total_sectors ft fp (begin_file fp pos byte st) rest)))"
    by (simp add: estimate_tracks_def)
next
  have "same_bar (st'\<lparr>estimated_file_size := e\<rparr>) st'"
    by (simp add: same_bar_def)
  from same_bar_carve_file [OF this]
  show "progress_values (events (state_of
     (carve_file env fl total_sectors ft fp (st'\<lparr>estimated_file_size := e\<rparr>) rest))) =
   progress_values (events (state_of (carve_file env fl total_sectors ft fp st' rest)))"
    by (simp add: same_bar_def)
qed

lemma tick_at_half:
  "estimated_file_size (file_tick exact_ops 1000000 ''jpg''
     (start_state\<lparr>file_sectors := 500, estimated_file_size := 1000\<rparr>)) = 1002"
  by (simp add: file_tick_def Let_def emit_def start_state_def initial_state_def)

text \<open>
  Claim C7 as stated fails: at the 501st block of a file the estimate 1000 becomes 1002, not
  its double.
\<close>

theorem estimate_not_doubled:
  "estimated_file_size (file_tick exact_ops 1000000 ''jpg''
     (start_state\<lparr>file_sectors := 500, estimated_file_size := 1000\<rparr>)) = 1002 \<and>
   estimated_file_size (file_tick exact_ops 1000000 ''jpg''
     (start_state\<lparr>file_sectors := 500, estimated_file_size := 1000\<rparr>)) \<noteq>
   2 * estimated_file_size (start_state\<lparr>file_sectors := 500, estimated_file_size := 1000\<rparr>)"
  by (simp add: tick_at_half)

theorem estimate_follows_file_not_bar_witness:
  "estimated_file_size (state_of (carve_file (healthy []) exact_ops 1 ''jpg'' ''f''
       (begin_file ''f'' 0 [0xff, 0xd8, 0xff, 0xe0] start_state) [[0x01], [0x02]])) =
   max 1000 (2 * file_sectors (state_of (carve_file (healthy []) exact_ops 1 ''jpg'' ''f''
       (begin_file ''f'' 0 [0xff, 0xd8, 0xff, 0xe0] start_state) [[0x01], [0x02]]))) \<and>
   progress_values (events (state_of (carve_file (healthy []) exact_ops 1 ''jpg'' ''f''
       (start_state\<lparr>estimated_file_size := 7\<rparr>) [[0x01], [0x02]]))) =
   progress_values (events (state_of (carve_file (healthy []) exact_ops 1 ''jpg'' ''f''
       start_state [[0x01], [0x02]])))"
  by (rule estimate_follows_file_not_bar)

section \<open>Properties of the verifier\<close>

lemma verify_loop_append:
  "verify_loop env cdir fs c (xs @ ys) =
     (case verify_loop env cdir fs c xs of
        (out1, fs1, c1) \<Rightarrow>
          (case verify_loop env cdir fs1 c1 ys of
             (out2, fs2, c2) \<Rightarrow> (out1 @ out2, fs2, c2)))"
  by (induction xs arbitrary: fs c) (auto split: prod.splits)

lemma verify_loop_length:
  "verify_loop env cdir fs c rs = (out, fs', c') \<Longrightarrow> length out = length rs"
  by (induction rs arbitrary: fs c out) (auto split: prod.splits)

text \<open>
  Claim C8. When the verifier reaches a record whose file exists and is judged invalid, and
  the move of the file into the quarantine directory fails, the record appears in the output at
  its own place with the status \<open>Corrupted (not moved)\<close> and its path unchanged (only its hash
  and status are set), and the output has one record for every record given.
\<close>

theorem move_failure_keeps_record:
  assumes "quarantine_dir_ok env"
    and "verify_loop env corrupted_dir fs 0 before = (out, fs1, n)"
    and "fs1 (path r) \<noteq> None"
    and "\<not> verify_image_integrity env fs1 (path r) (ftype r)"
    and "\<not> move_ok env (path r) (corrupted_path corrupted_dir (n + 1) (path r))"
  shows "length (fst (verify_files env corrupted_dir (before @ r # after) fs)) =
           length (before @ r # after) \<and>
         fst (verify_files env corrupted_dir (before @ r # after) fs) ! length before =
           r\<lparr>hash := Some (calculate_file_hash env fs1 (path r)),
             status := ''Corrupted (not moved)''\<rparr> \<and>
         status (fst (verify_files env corrupted_dir (before @ r # after) fs) ! length before) =
           ''Corrupted (not moved)'' \<and>
         path (fst (verify_files env corrupted_dir (before @ r # after) fs) ! length before) =
           path r"
proof -
  have one: "verify_file env corrupted_dir fs1 n r =
      (r\<lparr>hash := Some (calculate_file_hash env fs1 (path r)),
         status := ''Corrupted (not moved)''\<rparr>, fs1, n + 1)"
    using assms(3-5) by (simp add: verify_file_def Let_def)
  obtain out2 fs2 n2 where rest: "verify_loop env corrupted_dir fs1 (n + 1) after = (out2, fs2, n2)"
    by (cases "verify_loop env corrupted_dir fs1 (n + 1) after")
  have "verify_loop env corrupted_dir fs 0 (before @ r # after) =
      (out @ r\<lparr>hash := Some (calculate_file_hash env fs1 (path r)),
               status := ''Corrupted (not moved)''\<rparr> # out2, fs2, n2)"
    using assms(2) one rest by (simp add: verify_loop_append)
  moreover have "length out = length before"
    using assms(2) by (rule verify_loop_length)
  moreover have "length out2 = length after"
    using rest by (rule verify_loop_length)
  ultimately show ?thesis
    using assms(1) by (simp add: verify_files_def nth_append)
qed

text \<open>One carved record, its file of one byte that PIL cannot open, and moves that fail.\<close>

definition carved_record :: file_info where
  "carved_record =
     \<lparr>path = ''out/recovered_0.jpg'', fsize = 1, ftype = ''jpg'', status = ''Recovered'',
      hash = None\<rparr>"

definition carved_files :: file_system where
  "carved_files = [''out/recovered_0.jpg'' \<mapsto> [0x01]]"

definition moves_fail :: verify_env where
  "moves_fail =
     \<lparr>quarantine_dir_ok = True, move_ok = (\<lambda>src dst. False), hash_read_ok = (\<lambda>p. True),
      sha256_hex = (\<lambda>content. ''digest''), image_open = (\<lambda>content. None)\<rparr>"

theorem move_failure_keeps_record_witness:
  "fst (verify_files moves_fail ''out/corrupted'' [carved_record] carved_files) =
     [\<lparr>path = ''out/recovered_0.jpg'', fsize = 1, ftype = ''jpg'',
       status = ''Corrupted (not moved)'', hash = Some ''digest''\<rparr>]"
proof -
  have "length (fst (verify_files moves_fail ''out/corrupted'' ([] @ carved_record # []) carved_files))
          = length ([] @ carved_record # ([] :: file_info list)) \<and>
        fst (verify_files moves_fail ''out/corrupted'' ([] @ carved_record # []) carved_files)
          ! length ([] :: file_info list) =
        carved_record\<lparr>hash := Some (calculate_file_hash moves_fail carved_files (path carved_record)),
          status := ''Corrupted (not moved)''\<rparr> \<and>
        status (fst (verify_files moves_fail ''out/corrupted'' ([] @ carved_record # []) carved_files)
          ! length ([] :: file_info list)) = ''Corrupted (not moved)'' \<and>
        path (fst (verify_files moves_fail ''out/corrupted'' ([] @ carved_record # []) carved_files)
          ! length ([] :: file_info list)) = path carved_record"
    by (rule move_failure_keeps_record [where n = 0 and ?fs1.0 = carved_files and out = "[]"])
       (simp_all add: moves_fail_def carved_files_def carved_record_def
          verify_image_integrity_def)
  then show ?thesis
    by (cases "fst (verify_files moves_fail ''out/corrupted'' [carved_record] carved_files)")
       (simp_all add: carved_record_def calculate_file_hash_def carved_files_def moves_fail_def)
qed

subsection \<open>A second pass\<close>

text \<open>
  The paths that the verifier gives to quarantined files in a directory, those with a counter
  above \<open>c\<close>, and an environment in which every move and every read for hashing succeeds.
\<close>

definition quarantine_names :: "string \<Rightarrow> string set" where
  "quarantine_names corrupted_dir =
     {path_join corrupted_dir (corrupted_filename n base) | n base. True}"

definition later_names :: "string \<Rightarrow> nat \<Rightarrow> string set" where
  "later_names corrupted_dir c =
     {path_join corrupted_dir (corrupted_filename n base) | n base. c < n}"

definition verifier_io_ok :: "verify_env \<Rightarrow> bool" where
  "verifier_io_ok env = ((\<forall>src dst. move_ok env src dst) \<and> (\<forall>p. hash_read_ok env p))"

lemma of_char_digit: "d < 10 \<Longrightarrow> of_char (digit_char d) = 48 + d"
  by (simp add: digit_char_def)

lemma digit_char_inj: "d < 10 \<Longrightarrow> e < 10 \<Longrightarrow> digit_char d = digit_char e \<Longrightarrow> d = e"
  using of_char_digit [of d] of_char_digit [of e] by (metis add_left_cancel)

lemma digit_char_not_underscore: "d < 10 \<Longrightarrow> digit_char d \<noteq> CHR ''_''"
proof
  assume "d < 10" "digit_char d = CHR ''_''"
  then have "(of_char (CHR ''_'') :: nat) = 48 + d"
    using of_char_digit [of d] by simp
  with \<open>d < 10\<close> show False by simp
qed

lemma str_nat_nonempty: "str_nat n \<noteq> []"
  by (subst str_nat.simps) simp

lemma str_nat_no_underscore: "CHR ''_'' \<notin> set (str_nat n)"
proof (induction n rule: str_nat.induct)
  case (1 n)
  show ?case
  proof (cases "n < 10")
    case True
    then show ?thesis
      using digit_char_not_underscore [of n] by (subst str_nat.simps) auto
  next
    case False
    then show ?thesis
      using "1.IH" digit_char_not_underscore [of "n mod 10"]
      by (subst str_nat.simps) auto
  qed
qed

lemma str_nat_inj: "str_nat m = str_nat n \<Longrightarrow> m = n"
proof (induction m arbitrary: n rule: str_nat.induct)
  case (1 m)
  show ?case
  proof (cases "m < 10")
    case m: True
    show ?thesis
    proof (cases "n < 10")
      case True
      with m "1.prems" show ?thesis
        by (simp add: str_nat.simps [of m] str_nat.simps [of n] digit_char_inj)
    next
      case False
      with m "1.prems" str_nat_nonempty [of "n div 10"] show ?thesis
        by (simp add: str_nat.simps [of m] str_nat.simps [of n] Cons_eq_append_conv)
    qed
  next
    case m: False
    show ?thesis
    proof (cases "n < 10")
      case True
      with m "1.prems" str_nat_nonempty [of "m div 10"] show ?thesis
        by (simp add: str_nat.simps [of m] str_nat.simps [of n] append_eq_Cons_conv)
    next
      case False
      with m "1.prems" have "str_nat (m div 10) = str_nat (n div 10)"
        and "digit_char (m mod 10) = digit_char (n mod 10)"
        by (simp_all add: str_nat.simps [of m] str_nat.simps [of n])
      then have "m div 10 = n div 10" "m mod 10 = n mod 10"
        using "1.IH" [OF m] digit_char_inj [of "m mod 10" "n mod 10"] by auto
      then show ?thesis
        by (metis div_mult_mod_eq)
    qed
  qed
qed

lemma split_at_underscore:
  "a @ CHR ''_'' # x = b @ CHR ''_'' # y \<Longrightarrow> CHR ''_'' \<notin> set a \<Longrightarrow> CHR ''_'' \<notin> set b
   \<Longrightarrow> a = b"
proof (induction a arbitrary: b)
  case Nil
  then show ?case by (cases b) auto
next
  case (Cons c a)
  then show ?case by (cases b) auto
qed

lemma corrupted_filename_inj:
  "corrupted_filename n base = corrupted_filename m base' \<Longrightarrow> n = m"
proof -
  assume "corrupted_filename n base = corrupted_filename m base'"
  then have "str_nat n @ CHR ''_'' # base = str_nat m @ CHR ''_'' # base'"
    by (simp add: corrupted_filename_def)
  then have "str_nat n = str_nat m"
    by (rule split_at_underscore) (rule str_nat_no_underscore)+
  then show ?thesis by (rule str_nat_inj)
qed

lemma path_join_corrupted:
  "path_join d (corrupted_filename n base) =
     (if d = [] \<or> last d = CHR ''/'' then d else d @ ''/'') @ corrupted_filename n base"
  by (simp add: path_join_def corrupted_filename_def)

lemma quarantine_name_inj:
  "path_join d (corrupted_filename n base) = path_join d (corrupted_filename m base') \<Longrightarrow> n = m"
  by (auto simp: path_join_corrupted dest: corrupted_filename_inj)

lemma corrupted_path_names:
  "corrupted_path d n p \<in> quarantine_names d"
  "c < n \<Longrightarrow> corrupted_path d n p \<in> later_names d c"
  "corrupted_path d n p \<notin> later_names d n"
  by (auto simp: corrupted_path_def quarantine_names_def later_names_def
        dest: quarantine_name_inj)

lemma later_names_subset:
  "later_names d c \<subseteq> quarantine_names d" "c \<le> c' \<Longrightarrow> later_names d c' \<subseteq> later_names d c"
  by (auto simp: quarantine_names_def later_names_def)


lemma move_file_other:
  "x \<noteq> src \<Longrightarrow> x \<noteq> dst \<Longrightarrow> move_file src dst fs x = fs x"
  by (simp add: move_file_def split: option.splits)

lemma move_file_dst:
  "fs src = Some content \<Longrightarrow> move_file src dst fs dst = Some content"
  by (simp add: move_file_def)

lemma verify_file_cases:
  obtains (missing) "fs (path r) = None"
      "verify_file env d fs c r = (r\<lparr>status := ''Missing''\<rparr>, fs, c)"
  | (ok) content where "fs (path r) = Some content"
      "verify_image_integrity env fs (path r) (ftype r)"
      "verify_file env d fs c r =
         (r\<lparr>hash := Some (calculate_file_hash env fs (path r)), status := ''OK''\<rparr>, fs, c)"
  | (moved) content where "fs (path r) = Some content"
      "\<not> verify_image_integrity env fs (path r) (ftype r)"
      "move_ok env (path r) (corrupted_path d (c + 1) (path r))"
      "verify_file env d fs c r =
         (r\<lparr>hash := Some (calculate_file_hash env fs (path r)),
            path := corrupted_path d (c + 1) (path r), status := ''Corrupted''\<rparr>,
          move_file (path r) (corrupted_path d (c + 1) (path r)) fs, c + 1)"
  | (not_moved) content where "fs (path r) = Some content"
      "\<not> verify_image_integrity env fs (path r) (ftype r)"
      "\<not> move_ok env (path r) (corrupted_path d (c + 1) (path r))"
      "verify_file env d fs c r =
         (r\<lparr>hash := Some (calculate_file_hash env fs (path r)),
            status := ''Corrupted (not moved)''\<rparr>, fs, c + 1)"
proof (cases "fs (path r)")
  case None
  then show ?thesis by (intro missing) (simp_all add: verify_file_def)
next
  case (Some content)
  show ?thesis
  proof (cases "verify_image_integrity env fs (path r) (ftype r)")
    case True
    with Some show ?thesis by (intro ok [of content]) (simp_all add: verify_file_def)
  next
    case False
    show ?thesis
    proof (cases "move_ok env (path r) (corrupted_path d (c + 1) (path r))")
      case True
      with Some False show ?thesis
        by (intro moved [of content]) (simp_all add: verify_file_def Let_def)
    next
      case nm: False
      with Some False show ?thesis
        by (intro not_moved [of content]) (simp_all add: verify_file_def Let_def)
    qed
  qed
qed

text \<open>What one iteration leaves untouched, and the path it gives the record.\<close>

lemma verify_file_frame:
  assumes "verify_file env d fs c r = (r', fs', c')"
  shows "c \<le> c' \<and> c' \<le> c + 1 \<and>
         (\<forall>x. x \<noteq> path r \<and> x \<notin> later_names d c \<longrightarrow> fs' x = fs x) \<and>
         (path r' = path r \<or> path r' \<in> later_names d c \<and> path r' \<notin> later_names d c')"
proof (cases rule: verify_file_cases [of fs r env d c])
  case missing
  with assms show ?thesis by auto
next
  case (ok content)
  with assms show ?thesis by auto
next
  case (moved content)
  with assms corrupted_path_names(2) [of c "c + 1" d "path r"]
    corrupted_path_names(3) [of d "c + 1" "path r"]
  show ?thesis by (auto intro!: move_file_other)
next
  case (not_moved content)
  with assms show ?thesis by auto
qed

lemma verify_loop_frame:
  "verify_loop env d fs c rs = (out, fs', c') \<Longrightarrow>
   c \<le> c' \<and>
   (\<forall>x. x \<notin> path ` set rs \<and> x \<notin> later_names d c \<longrightarrow> fs' x = fs x) \<and>
   (\<forall>r'\<in>set out. path r' \<in> path ` set rs \<or> path r' \<in> later_names d c)"
proof (induction rs arbitrary: fs c out)
  case Nil
  then show ?case by simp
next
  case (Cons r rs)
  obtain r1 fs1 c1 where one: "verify_file env d fs c r = (r1, fs1, c1)"
    by (cases "verify_file env d fs c r")
  obtain out2 where rest: "verify_loop env d fs1 c1 rs = (out2, fs', c')" and out: "out = r1 # out2"
    using Cons.prems one by (auto split: prod.splits)
  note f1 = verify_file_frame [OF one]
  note f2 = Cons.IH [OF rest]
  from f1 have sub: "later_names d c1 \<subseteq> later_names d c"
    by (intro later_names_subset) simp
  have "c \<le> c'" using f1 f2 by simp
  moreover have "fs' x = fs x" if "x \<notin> path ` set (r # rs)" "x \<notin> later_names d c" for x
  proof -
    from that sub have "fs' x = fs1 x" using f2 by auto
    also from that have "fs1 x = fs x" using f1 by auto
    finally show ?thesis .
  qed
  moreover have "path r' \<in> path ` set (r # rs) \<or> path r' \<in> later_names d c"
    if "r' \<in> set out" for r'
    using that out f1 f2 sub by auto
  ultimately show ?case by blast
qed

lemma hash_same_content:
  "fs p = g q \<Longrightarrow> hash_read_ok env p \<Longrightarrow> hash_read_ok env q \<Longrightarrow>
   calculate_file_hash env fs p = calculate_file_hash env g q"
  by (simp add: calculate_file_hash_def split: option.splits)

lemma integrity_same_content:
  "fs p = g q \<Longrightarrow> verify_image_integrity env fs p ft = verify_image_integrity env g q ft"
  by (simp add: verify_image_integrity_def split: option.splits)

lemma verify_twice_loop:
  assumes io: "verifier_io_ok env"
  shows "distinct (map path rs) \<Longrightarrow> \<forall>r\<in>set rs. path r \<notin> quarantine_names d \<Longrightarrow>
         verify_loop env d fs c rs = (out1, fs1, c1) \<Longrightarrow>
         \<forall>r\<in>set out1. g (path r) = fs1 (path r) \<Longrightarrow>
         \<exists>out2 g2. verify_loop env d g c out1 = (out2, g2, c1) \<and>
                   map status out2 = map status out1 \<and> map hash out2 = map hash out1"
proof (induction rs arbitrary: fs c g out1)
  case Nil
  then show ?case by simp
next
  case (Cons r rs)
  from io have mv: "\<And>src dst. move_ok env src dst" and rd: "\<And>p. hash_read_ok env p"
    by (simp_all add: verifier_io_ok_def)
  obtain r1 fsA cA where one: "verify_file env d fs c r = (r1, fsA, cA)"
    by (cases "verify_file env d fs c r")
  obtain outT where rest: "verify_loop env d fsA cA rs = (outT, fs1, c1)"
    and out1: "out1 = r1 # outT"
    using Cons.prems(3) one by (auto split: prod.splits)
  note fr = verify_loop_frame [OF rest]
  have dist: "distinct (map path rs)" and notq: "\<forall>r\<in>set rs. path r \<notin> quarantine_names d"
    and p_new: "path r \<notin> path ` set rs" and p_notq: "path r \<notin> quarantine_names d"
    using Cons.prems(1,2) by auto
  have g1: "g (path r1) = fs1 (path r1)" and gT: "\<forall>x\<in>set outT. g (path x) = fs1 (path x)"
    using Cons.prems(4) out1 by auto
  have p_notlater: "path r \<notin> later_names d k" for k
    using p_notq later_names_subset(1) [of d k] by auto
  show ?case
  proof (cases rule: verify_file_cases [of fs r env d c])
    case missing
    with one have r1: "r1 = r\<lparr>status := ''Missing''\<rparr>" and st: "fsA = fs" "cA = c" by auto
    have "fs1 (path r) = fs (path r)"
      using fr p_new p_notlater st by auto
    with g1 r1 missing have "g (path r1) = None" by simp
    then have two: "verify_file env d g c r1 = (r1, g, c)"
      using r1 by (simp add: verify_file_def)
    from Cons.IH [OF dist notq rest gT] st obtain out2 g2 where
      "verify_loop env d g c outT = (out2, g2, c1)" "map status out2 = map status outT"
      "map hash out2 = map hash outT" by auto
    with two out1 show ?thesis by simp
  next
    case (ok content)
    with one have r1: "r1 = r\<lparr>hash := Some (calculate_file_hash env fs (path r)), status := ''OK''\<rparr>"
      and st: "fsA = fs" "cA = c" by auto
    have "fs1 (path r) = fs (path r)"
      using fr p_new p_notlater st by auto
    with g1 r1 have same: "fs (path r) = g (path r)" by simp
    have two: "verify_file env d g c r1 = (r1, g, c)"
      using r1 ok same
        hash_same_content [where fs = fs and p = "path r" and g = g and q = "path r" and env = env]
        integrity_same_content [where fs = fs and p = "path r" and g = g and q = "path r"
          and env = env and ft = "ftype r"]
      by (simp add: verify_file_def rd)
    from Cons.IH [OF dist notq rest gT] st obtain out2 g2 where
      "verify_loop env d g c outT = (out2, g2, c1)" "map status out2 = map status outT"
      "map hash out2 = map hash outT" by auto
    with two out1 show ?thesis by simp
  next
    case (not_moved content)
    with mv show ?thesis by simp
  next
    case (moved content)
    define q where "q = corrupted_path d (c + 1) (path r)"
    define q' where "q' = corrupted_path d (c + 1) q"
    from moved one have r1: "r1 = r\<lparr>hash := Some (calculate_file_hash env fs (path r)),
            path := q, status := ''Corrupted''\<rparr>"
      and st: "fsA = move_file (path r) q fs" "cA = c + 1"
      by (auto simp: q_def)
    have q_names: "q \<in> quarantine_names d" "q \<notin> later_names d (c + 1)"
      "q' \<in> quarantine_names d" "q' \<notin> later_names d (c + 1)"
      unfolding q_def q'_def by (rule corrupted_path_names)+
    have "q \<notin> path ` set rs" using notq q_names(1) by auto
    with fr q_names(2) st have "fs1 q = fsA q" by auto
    also have "fsA q = Some content"
      using st moved(1) by (simp add: move_file_dst)
    finally have fs1q: "fs1 q = Some content" .
    with g1 r1 have gq: "g q = Some content" by simp
    with moved(1) have same: "fs (path r) = g q" by simp
    have two: "verify_file env d g c r1 =
        (r1\<lparr>path := q'\<rparr>, move_file q q' g, c + 1)"
      using r1 gq moved(2) same
        hash_same_content [where fs = fs and p = "path r" and g = g and q = q and env = env]
        integrity_same_content [where fs = fs and p = "path r" and g = g and q = q
          and env = env and ft = "ftype r"]
      by (simp add: verify_file_def Let_def q'_def rd mv)
    have gT': "\<forall>x\<in>set outT. move_file q q' g (path x) = fs1 (path x)"
    proof
      fix x assume x: "x \<in> set outT"
      with fr st have "path x \<in> path ` set rs \<or> path x \<in> later_names d (c + 1)" by auto
      with notq q_names have "path x \<noteq> q" "path x \<noteq> q'" by auto
      then have "move_file q q' g (path x) = g (path x)" by (rule move_file_other)
      with gT x show "move_file q q' g (path x) = fs1 (path x)" by simp
    qed
    from Cons.IH [OF dist notq rest gT'] st obtain out2 g2 where
      "verify_loop env d (move_file q q' g) (c + 1) outT = (out2, g2, c1)"
      "map status out2 = map status outT" "map hash out2 = map hash outT" by auto
    with two out1 show ?thesis by simp
  qed
qed

text \<open>
  Claim C9, as the code has it. When every move and every read for hashing succeeds, and the
  records have pairwise distinct paths none of which is already a quarantine name of the
  quarantine directory (as the records of raw carving have), a second pass of the verifier over
  the records and files left by a first pass gives every record the same status and the same
  hash as the first. (The files judged invalid are moved, and renamed, a second time.)
\<close>

theorem second_pass_same:
  assumes "verifier_io_ok env" "distinct (map path rs)"
    and "\<forall>r\<in>set rs. path r \<notin> quarantine_names d"
  shows "map status (fst (verify_files env d (fst (verify_files env d rs fs))
                            (snd (verify_files env d rs fs)))) =
         map status (fst (verify_files env d rs fs)) \<and>
         map hash (fst (verify_files env d (fst (verify_files env d rs fs))
                          (snd (verify_files env d rs fs)))) =
         map hash (fst (verify_files env d rs fs))"
proof (cases "quarantine_dir_ok env")
  case False
  then show ?thesis by (simp add: verify_files_def)
next
  case True
  obtain out1 fs1 c1 where one: "verify_loop env d fs 0 rs = (out1, fs1, c1)"
    by (cases "verify_loop env d fs 0 rs")
  from verify_twice_loop [OF assms one, of fs1] obtain out2 g2 where
    "verify_loop env d fs1 0 out1 = (out2, g2, c1)" "map status out2 = map status out1"
    "map hash out2 = map hash out1" by auto
  with True one show ?thesis by (simp add: verify_files_def)
qed


text \<open>
  Two environments for the one carved record above: one in which every move succeeds, and one
  in which a move fails when the destination path is longer than 48 characters.
\<close>

definition moves_succeed :: verify_env where
  "moves_succeed =
     \<lparr>quarantine_dir_ok = True, move_ok = (\<lambda>src dst. True), hash_read_ok = (\<lambda>p. True),
      sha256_hex = (\<lambda>content. ''digest''), image_open = (\<lambda>content. None)\<rparr>"

definition path_limit :: verify_env where
  "path_limit =
     \<lparr>quarantine_dir_ok = True, move_ok = (\<lambda>src dst. length dst \<le> 48),
      hash_read_ok = (\<lambda>p. True), sha256_hex = (\<lambda>content. ''digest''),
      image_open = (\<lambda>content. None)\<rparr>"

lemma run_first_pass:
  "fst (verify_files moves_succeed ''out/corrupted'' [carved_record] carved_files) =
     [\<lparr>path = ''out/corrupted/corrupted_1_recovered_0.jpg'', fsize = 1, ftype = ''jpg'',
       status = ''Corrupted'', hash = Some ''digest''\<rparr>]"
  by code_simp

lemma run_path_limit:
  "map status (fst (verify_files path_limit ''out/corrupted'' [carved_record] carved_files)) =
     [''Corrupted'']"
  "map status (fst (verify_files path_limit ''out/corrupted''
          (fst (verify_files path_limit ''out/corrupted'' [carved_record] carved_files))
          (snd (verify_files path_limit ''out/corrupted'' [carved_record] carved_files)))) =
     [''Corrupted (not moved)'']"
  by code_simp+

text \<open>
  Claim C9 as stated fails: the first pass moves the invalid file to
  \<open>out/corrupted/corrupted_1_recovered_0.jpg\<close>; the second pass, on the same files, tries to
  move it to \<open>out/corrupted/corrupted_1_corrupted_1_recovered_0.jpg\<close>, the move fails, and
  the status \<open>Corrupted\<close> becomes \<open>Corrupted (not moved)\<close>.
\<close>

theorem second_pass_changes_status:
  "map status (fst (verify_files path_limit ''out/corrupted'' [carved_record] carved_files)) =
     [''Corrupted''] \<and>
   map status (fst (verify_files path_limit ''out/corrupted''
          (fst (verify_files path_limit ''out/corrupted'' [carved_record] carved_files))
          (snd (verify_files path_limit ''out/corrupted'' [carved_record] carved_files)))) =
     [''Corrupted (not moved)'']"
  by (intro conjI run_path_limit)

lemma carved_record_not_quarantined:
  "\<forall>r\<in>set [carved_record]. path r \<notin> quarantine_names ''out/corrupted''"
  by (simp add: quarantine_names_def path_join_corrupted carved_record_def)

theorem second_pass_same_witness:
  "verifier_io_ok moves_succeed \<and>
   map status (fst (verify_files moves_succeed ''out/corrupted''
          (fst (verify_files moves_succeed ''out/corrupted'' [carved_record] carved_files))
          (snd (verify_files moves_succeed ''out/corrupted'' [carved_record] carved_files)))) =
     [''Corrupted''] \<and>
   map hash (fst (verify_files moves_succeed ''out/corrupted''
          (fst (verify_files moves_succeed ''out/corrupted'' [carved_record] carved_files))
          (snd (verify_files moves_succeed ''out/corrupted'' [carved_record] carved_files)))) =
     [Some ''digest'']"
proof -
  have io: "verifier_io_ok moves_succeed"
    by (simp add: verifier_io_ok_def moves_succeed_def)
  have "distinct (map path [carved_record])" by simp
  from second_pass_same [OF io this carved_record_not_quarantined, of carved_files] io
  show ?thesis by (simp add: run_first_pass)
qed

text \<open>
  The two conditions on the paths are needed as well. Two records of one file, judged as a
  JPEG and as a PNG: the second pass finds the file of the first record gone. A record whose
  path is a quarantine name: the first pass puts another record's file there.
\<close>

definition opens_as_jpeg :: verify_env where
  "opens_as_jpeg =
     \<lparr>quarantine_dir_ok = True, move_ok = (\<lambda>src dst. True), hash_read_ok = (\<lambda>p. True),
      sha256_hex = (\<lambda>content. ''digest''), image_open = (\<lambda>content. Some (10, 10, ''JPEG''))\<rparr>"

lemma second_pass_shared_path:
  "map status (fst (verify_files opens_as_jpeg ''out/corrupted''
      [carved_record, carved_record\<lparr>ftype := ''png''\<rparr>] carved_files)) = [''OK'', ''Corrupted'']"
  "map status (fst (verify_files opens_as_jpeg ''out/corrupted''
      (fst (verify_files opens_as_jpeg ''out/corrupted''
              [carved_record, carved_record\<lparr>ftype := ''png''\<rparr>] carved_files))
      (snd (verify_files opens_as_jpeg ''out/corrupted''
              [carved_record, carved_record\<lparr>ftype := ''png''\<rparr>] carved_files)))) =
     [''Missing'', ''Corrupted'']"
  by code_simp+

lemma second_pass_quarantine_name:
  "map status (fst (verify_files moves_succeed ''out/corrupted''
      [carved_record\<lparr>path := ''out/corrupted/corrupted_1_recovered_0.jpg''\<rparr>, carved_record]
      carved_files)) = [''Missing'', ''Corrupted'']"
  "map status (fst (verify_files moves_succeed ''out/corrupted''
      (fst (verify_files moves_succeed ''out/corrupted''
        [carved_record\<lparr>path := ''out/corrupted/corrupted_1_recovered_0.jpg''\<rparr>, carved_record]
        carved_files))
      (snd (verify_files moves_succeed ''out/corrupted''
        [carved_record\<lparr>path := ''out/corrupted/corrupted_1_recovered_0.jpg''\<rparr>, carved_record]
        carved_files)))) = [''Corrupted'', ''Missing'']"
  by code_simp+

section \<open>The scan follows the description by blocks\<close>

text \<open>What the loop over one file has done when it ends without error.\<close>

lemma carve_file_follows:
  assumes "stop_after env = None" "\<forall>n. read_ok env n"
  shows "[] \<notin> set rest \<Longrightarrow> carve_file env fl total_sectors ft fp st rest = Inr (s, r) \<Longrightarrow>
     r = snd (file_extent ft rest) \<and>
     file_bytes s fp = file_bytes st fp @ concat (fst (file_extent ft rest)) \<and>
     rcvd s = rcvd st \<and> recovered_files s = recovered_files st \<and>
     (\<forall>w < length (fst (file_extent ft rest)).
        sink_write_ok env (rcvd st) (file_sectors st + 1 + w))"
proof (induction rest arbitrary: st)
  case Nil
  then show ?case
    using assms by (auto simp: carve_file_Nil is_running_def)
next
  case (Cons b rest)
  have run: "\<And>x. is_running env x" using assms(1) by (simp add: is_running_def)
  from Cons.prems have b: "b \<noteq> []" and ne: "[] \<notin> set rest" by auto
  from Cons.prems(2) b run assms(2)
  have w0: "sink_write_ok env (rcvd st) (file_sectors st + 1)"
    by (auto simp: carve_file_Cons split: if_split_asm)
  show ?case
  proof (cases "find_bytes (end_signature ft) b")
    case (Some k)
    with Cons.prems(2) b run assms(2) w0 show ?thesis
      by (auto simp: carve_file_Cons)
  next
    case None
    with Cons.prems(2) b run assms(2) w0
    have "carve_file env fl total_sectors ft fp
            (sink_write fp b (file_tick fl total_sectors ft st)) rest = Inr (s, r)"
      by (simp add: carve_file_Cons)
    note ih = Cons.IH [OF ne this]
    obtain chunks rest' where fe: "file_extent ft rest = (chunks, rest')"
      by (cases "file_extent ft rest")
    have "sink_write_ok env (rcvd st) (file_sectors st + 1 + w)"
      if "w < Suc (length chunks)" for w
    proof (cases w)
      case 0
      with w0 show ?thesis by simp
    next
      case (Suc w')
      with that ih fe show ?thesis by simp
    qed
    with ih fe None show ?thesis by simp
  qed
qed


lemma writes_done_nth:
  "writes_done env c ds \<Longrightarrow> i < length ds \<Longrightarrow>
   sink_open_ok env (c + i) \<and> (\<forall>w < length (snd (ds ! i)). sink_write_ok env (c + i) w)"
proof (induction ds arbitrary: c i)
  case Nil
  then show ?case by simp
next
  case (Cons d ds)
  show ?case
  proof (cases i)
    case 0
    with Cons.prems show ?thesis by simp
  next
    case (Suc j)
    with Cons.prems Cons.IH [of "c + 1" j] show ?thesis by simp
  qed
qed

lemma scan_list_Nil: "scan_list env fl total_sectors output_dir st [] = Inr st"
  by (simp add: scan_list_def read_block_def, subst scan_loop.simps, simp)

lemma scan_list_Cons:
  "stop_after env = None \<Longrightarrow> b \<noteq> [] \<Longrightarrow>
   scan_list env fl total_sectors output_dir st (b # bs) =
     (case scan_block env fl total_sectors output_dir st b bs of
        Inl e \<Rightarrow> Inl e
      | Inr (st', rest') \<Rightarrow>
          (case next_block env fl total_sectors st' rest' of
             Inl e \<Rightarrow> Inl e
           | Inr (st'', byte', rest'') \<Rightarrow>
               scan_loop env fl total_sectors output_dir st'' byte' rest''))"
  by (simp add: scan_list_def read_block_def, subst scan_loop.simps, simp add: is_running_def)

lemma next_block_reads:
  "\<forall>n. read_ok env n \<Longrightarrow>
   \<exists>s b r. next_block env fl total_sectors st rest = Inr (s, b, r) \<and>
        read_block rest = (b, r) \<and>
        rcvd s = rcvd st \<and> recovered_files s = recovered_files st"
  by (simp add: next_block_def Let_def emit_def split: prod.splits)

lemma scan_list_step:
  assumes "stop_after env = None" "\<forall>n. read_ok env n" "b \<noteq> []"
    and "scan_list env fl total_sectors output_dir st (b # bs) = Inr s"
  obtains s' r' s'' where
    "scan_block env fl total_sectors output_dir st b bs = Inr (s', r')"
    "rcvd s'' = rcvd s'" "recovered_files s'' = recovered_files s'"
    "scan_list env fl total_sectors output_dir s'' r' = Inr s"
proof -
  from assms(4) obtain s' r' where
    blk: "scan_block env fl total_sectors output_dir st b bs = Inr (s', r')"
    by (cases "scan_block env fl total_sectors output_dir st b bs")
       (auto simp: scan_list_Cons [OF assms(1,3)])
  from next_block_reads [OF assms(2), of fl total_sectors s' r'] obtain s'' b'' r'' where
    nb: "next_block env fl total_sectors s' r' = Inr (s'', b'', r'')"
    and rb: "read_block r' = (b'', r'')"
    and f: "rcvd s'' = rcvd s'" "recovered_files s'' = recovered_files s'" by blast
  have "scan_list env fl total_sectors output_dir st (b # bs) =
        scan_loop env fl total_sectors output_dir s'' b'' r''"
    using blk nb by (simp add: scan_list_Cons [OF assms(1,3)])
  moreover have "scan_list env fl total_sectors output_dir s'' r' =
        scan_loop env fl total_sectors output_dir s'' b'' r''"
    using rb by (simp add: scan_list_def)
  ultimately have "scan_list env fl total_sectors output_dir s'' r' = Inr s"
    using assms(4) by simp
  with blk f show ?thesis by (rule that)
qed

lemma scan_list_follows:
  assumes "stop_after env = None" "\<forall>n. read_ok env n"
  shows "[] \<notin> set blocks \<Longrightarrow>
     scan_list env fl total_sectors output_dir st blocks = Inr s \<Longrightarrow>
     map summary (recovered_files s) =
       map summary (recovered_files st) @ map chunk_summary (detections blocks) \<and>
     writes_done env (rcvd st) (detections blocks)"
proof (induction blocks arbitrary: st rule: detections.induct)
  case 1
  then show ?case by (simp add: scan_list_Nil)
next
  case (2 b bs)
  from "2.prems" have b: "b \<noteq> []" and ne: "[] \<notin> set bs" by auto
  from scan_list_step [OF assms b "2.prems"(2)] obtain s' r' s'' where
    blk: "scan_block env fl total_sectors output_dir st b bs = Inr (s', r')"
    and f: "rcvd s'' = rcvd s'" "recovered_files s'' = recovered_files s'"
    and go: "scan_list env fl total_sectors output_dir s'' r' = Inr s" by blast
  show ?case
  proof (cases "find_start b")
    case None
    with blk have eq: "s' = st" "r' = bs" by (simp_all add: scan_block_def)
    from "2.IH"(1) [OF None ne, of s''] go eq f None show ?thesis by simp
  next
    case (Some a)
    obtain ft pos where a: "a = (ft, pos)" by (cases a)
    obtain chunks rest where fe: "file_extent ft bs = (chunks, rest)"
      by (cases "file_extent ft bs")
    define fp where "fp = candidate_path output_dir (rcvd st) ft"
    from blk Some a obtain s2 where
      op: "sink_open_ok env (rcvd st)" and w0: "sink_write_ok env (rcvd st) 0"
      and cf: "carve_file env fl total_sectors ft fp (begin_file fp pos b st) bs = Inr (s2, r')"
      and s': "s' = finish_candidate fp ft s2"
      by (auto simp: scan_block_def carve_candidate_def Let_def fp_def [symmetric]
            split: if_split_asm sum.splits)
    from carve_file_follows [OF assms ne cf] fe
    have r': "r' = rest"
      and bytes: "file_bytes s2 fp = drop pos b @ concat chunks"
      and keep: "rcvd s2 = rcvd st" "recovered_files s2 = recovered_files st"
      and ws: "\<forall>w < length chunks. sink_write_ok env (rcvd st) (1 + w)"
      by simp_all
    have ne': "[] \<notin> set rest"
      using file_extent_suffix [OF fe] ne by (auto simp: suffix_def)
    have rec: "map summary (recovered_files s'') =
        map summary (recovered_files st) @ [chunk_summary (ft, drop pos b # chunks)]"
      using f s' bytes keep
      by (simp add: finish_candidate_def emit_def summary_def chunk_summary_def)
    have cnt: "rcvd s'' = rcvd st + 1"
      using f s' keep by (simp add: finish_candidate_def emit_def)
    have wr: "\<forall>w < length (drop pos b # chunks). sink_write_ok env (rcvd st) w"
    proof (intro allI impI)
      fix w assume "w < length (drop pos b # chunks)"
      with w0 ws show "sink_write_ok env (rcvd st) w" by (cases w) auto
    qed
    from "2.IH"(2) [OF Some [unfolded a] refl fe [symmetric] ne', of s''] go r'
    have ih: "map summary (recovered_files s) =
        map summary (recovered_files s'') @ map chunk_summary (detections rest)"
      "writes_done env (rcvd s'') (detections rest)" by simp_all
    have det: "detections (b # bs) = (ft, drop pos b # chunks) # detections rest"
      using Some a fe by (simp add: detections_signature)
    from ih rec cnt op wr show ?thesis by (simp add: det)
  qed
qed

lemma raw_recovery_scan_list:
  "makedirs_ok env \<Longrightarrow> drive_exists env \<Longrightarrow> drive_open_ok env \<Longrightarrow> read_ok env 0 \<Longrightarrow>
   raw_recovery env fl output_dir =
     conclude (scan_list env fl (total_sectors_of env 512) output_dir start_state
                 (blocks_of 512 (drive_data env)))"
  by (simp add: raw_recovery_def scan_list_def split: prod.splits)

text \<open>
  Claim C1, as the code has it. Each block is searched on its own, and only when no file is in
  progress; nothing of the block before it is kept. On a scan without failures the records
  returned are, in order, type and size, the files of \<open>detections\<close>: one for each start
  signature that lies whole inside a block searched that way, and no other. So a file is
  recovered exactly when some single block holds a whole start signature, and a signature split
  across two blocks starts no file.
\<close>

theorem carving_follows_blocks:
  assumes "no_failures env"
  shows "map summary (returned (raw_recovery env fl output_dir)) =
           map chunk_summary (detections (blocks_of 512 (drive_data env))) \<and>
         (returned (raw_recovery env fl output_dir) \<noteq> []) =
           (\<exists>b\<in>set (blocks_of 512 (drive_data env)). find_start b \<noteq> None)"
proof
  from assms have ok: "makedirs_ok env" "drive_exists env" "drive_open_ok env" "read_ok env 0"
    and stop: "stop_after env = None" and rd: "\<forall>n. read_ok env n"
    by (simp_all add: no_failures_def)
  define res where "res = scan_list env fl (total_sectors_of env 512) output_dir start_state
                 (blocks_of 512 (drive_data env))"
  have rr: "raw_recovery env fl output_dir = conclude res"
    unfolding res_def using ok by (rule raw_recovery_scan_list)
  obtain byte rest where rb: "read_block (blocks_of 512 (drive_data env)) = (byte, rest)"
    by (cases "read_block (blocks_of 512 (drive_data env))")
  from scan_loop_ok [OF assms, of fl "total_sectors_of env 512" output_dir start_state byte rest]
  obtain s where s: "res = Inr s"
    unfolding res_def scan_list_def using rb by auto
  from scan_list_follows [OF stop rd blocks_of_nonempty s [unfolded res_def]]
  have "map summary (recovered_files s) =
          map chunk_summary (detections (blocks_of 512 (drive_data env)))"
    by (simp add: start_state_fields)
  with rr s show "map summary (returned (raw_recovery env fl output_dir)) =
           map chunk_summary (detections (blocks_of 512 (drive_data env)))"
    by simp
next
  show "(returned (raw_recovery env fl output_dir) \<noteq> []) =
           (\<exists>b\<in>set (blocks_of 512 (drive_data env)). find_start b \<noteq> None)"
    using assms by (rule recovery_iff_signature)
qed

lemma detections_two_blocks:
  "map chunk_summary (detections (blocks_of 512 stream_two_blocks)) = [(''jpg'', 514)]"
  "length (detections (blocks_of 512 stream_two_blocks)) = 1"
  "length (snd (detections (blocks_of 512 stream_two_blocks) ! 0)) = 2"
  by code_simp+

lemma drive_data_healthy [simp]:
  "drive_data (healthy bs) = bs" "drive_data (write_fails_at c w env) = drive_data env"
  by (simp_all add: healthy_def write_fails_at_def)

theorem carving_follows_blocks_witness:
  "no_failures (healthy stream_two_blocks) \<and>
   map summary (returned (raw_recovery (healthy stream_two_blocks) exact_ops ''out'')) =
     [(''jpg'', 514)] \<and>
   map chunk_summary (detections (blocks_of 512 stream_two_blocks)) = [(''jpg'', 514)]"
  using carving_follows_blocks [OF no_failures_healthy, of stream_two_blocks exact_ops "''out''"]
  by (simp add: no_failures_healthy detections_two_blocks)

text \<open>
  Claim C4, as the code has it. A failure while opening or writing a carved file is fatal for
  the scan. Take any file that the scan of the stream carves (the \<open>c\<close>-th of \<open>detections\<close>)
  and any of the writes made for it (the \<open>w\<close>-th of its chunks; write 0 is the block of the
  start signature): when its sink cannot be opened or that write fails, on a scan whose reads
  succeed and which is not cancelled, the scan ends with an error as its last event and returns
  the empty list, so no record is returned for the candidate.
\<close>

theorem write_failure_aborts:
  assumes "makedirs_ok env" "drive_exists env" "drive_open_ok env" "stop_after env = None"
    and "\<forall>n. read_ok env n"
    and "c < length (detections (blocks_of 512 (drive_data env)))"
    and "w < length (snd (detections (blocks_of 512 (drive_data env)) ! c))"
    and "\<not> sink_open_ok env c \<or> \<not> sink_write_ok env c w"
  shows "returned (raw_recovery env fl output_dir) = [] \<and>
         (\<exists>e. last (emitted (raw_recovery env fl output_dir)) = Error e)"
proof -
  define res where "res = scan_list env fl (total_sectors_of env 512) output_dir start_state
                 (blocks_of 512 (drive_data env))"
  have rr: "raw_recovery env fl output_dir = conclude res"
    unfolding res_def using assms(1-3,5) by (intro raw_recovery_scan_list) simp_all
  show ?thesis
  proof (cases res)
    case (Inl a)
    obtain e s where "a = (e, s)" by (cases a)
    with Inl rr show ?thesis by (simp add: aborted_def)
  next
    case (Inr s)
    from scan_list_follows [OF assms(4,5) blocks_of_nonempty Inr [unfolded res_def]]
    have "writes_done env 0 (detections (blocks_of 512 (drive_data env)))"
      by (simp add: start_state_fields)
    from writes_done_nth [OF this assms(6)] assms(7,8) show ?thesis by simp
  qed
qed

theorem write_failure_aborts_witness:
  "\<not> sink_write_ok (write_fails_at 0 1 (healthy stream_two_blocks)) 0 1 \<and>
   returned (raw_recovery (write_fails_at 0 1 (healthy stream_two_blocks)) exact_ops ''out'') = [] \<and>
   (\<exists>e. last (emitted (raw_recovery (write_fails_at 0 1 (healthy stream_two_blocks))
              exact_ops ''out'')) = Error e)"
proof -
  have nw: "\<not> sink_write_ok (write_fails_at 0 1 (healthy stream_two_blocks)) 0 1"
    by (simp add: write_fails_at_def)
  have c: "0 < length (detections (blocks_of 512
              (drive_data (write_fails_at 0 1 (healthy stream_two_blocks)))))"
    by (simp add: detections_two_blocks)
  have w: "1 < length (snd (detections (blocks_of 512
              (drive_data (write_fails_at 0 1 (healthy stream_two_blocks)))) ! 0))"
    by (simp add: detections_two_blocks)
  have "returned (raw_recovery (write_fails_at 0 1 (healthy stream_two_blocks)) exact_ops ''out'')
          = [] \<and>
        (\<exists>e. last (emitted (raw_recovery (write_fails_at 0 1 (healthy stream_two_blocks))
              exact_ops ''out'')) = Error e)"
    using nw by (intro write_failure_aborts [OF _ _ _ _ _ c w])
      (simp_all add: write_fails_at_def healthy_def)
  with nw show ?thesis by simp
qed

lemma carve_file_through:
  assumes "[] \<notin> set mid" "\<forall>m\<in>set mid. find_bytes (end_signature ft) m = None"
    and "b \<noteq> []" "find_bytes (end_signature ft) b = Some k"
  shows "\<forall>n. stop_after env = Some n \<longrightarrow> offs st + length mid < n \<Longrightarrow>
     \<forall>n. offs st < n \<and> n \<le> offs st + length mid + 1 \<longrightarrow> read_ok env n \<Longrightarrow>
     \<forall>w. file_sectors st < w \<and> w \<le> file_sectors st + length mid + 1
        \<longrightarrow> sink_write_ok env (rcvd st) w \<Longrightarrow>
     \<exists>s. (\<forall>bs. carve_file env fl total_sectors ft fp st (mid @ b # bs) = Inr (s, bs)) \<and>
         file_bytes s fp =
           file_bytes st fp @ concat mid @ take (k + (if ft = ''jpg'' then 2 else 12)) b \<and>
         rcvd s = rcvd st \<and> recovered_files s = recovered_files st"
  using assms(1,2)
proof (induction mid arbitrary: st)
  case Nil
  from Nil.prems(1) have run: "is_running env st"
    by (simp add: is_running_def split: option.splits)
  have "carve_file env fl total_sectors ft fp st (b # bs) =
           Inr (sink_write fp (take (k + (if ft = ''jpg'' then 2 else 12)) b)
                  (file_tick fl total_sectors ft st), bs)" for bs
    using run Nil.prems(2,3) assms(3,4) by (intro carve_file_end_marker) simp_all
  then show ?case
    by (intro exI [of _ "sink_write fp (take (k + (if ft = ''jpg'' then 2 else 12)) b)
                  (file_tick fl total_sectors ft st)"]) simp
next
  case (Cons m mid)
  let ?st' = "sink_write fp m (file_tick fl total_sectors ft st)"
  from Cons.prems(1) have run: "is_running env st"
    by (fastforce simp: is_running_def split: option.splits)
  from Cons.prems(4,5) have m: "m \<noteq> []" "find_bytes (end_signature ft) m = None" by auto
  have step: "carve_file env fl total_sectors ft fp st ((m # mid) @ b # bs) =
        carve_file env fl total_sectors ft fp ?st' (mid @ b # bs)" for bs
    using run Cons.prems(2,3) m by (simp add: carve_file_Cons)
  have "\<exists>s. (\<forall>bs. carve_file env fl total_sectors ft fp ?st' (mid @ b # bs) = Inr (s, bs)) \<and>
         file_bytes s fp =
           file_bytes ?st' fp @ concat mid @ take (k + (if ft = ''jpg'' then 2 else 12)) b \<and>
         rcvd s = rcvd ?st' \<and> recovered_files s = recovered_files ?st'"
    using Cons.prems by (intro Cons.IH) auto
  with step show ?case by auto
qed

text \<open>
  Claim C2, as the code has it. A start signature is found in a block; the blocks \<open>mid\<close> read
  after it (any number of them) hold no end signature, and the block \<open>b\<close> read next holds it
  at offset \<open>k\<close>; the reads and writes up to there succeed and the scan is not cancelled
  before. Then the file holds the first block from the signature on, the blocks \<open>mid\<close>, and
  the bytes of \<open>b\<close> up to the end of the marker (or of the block); a record with status
  \<open>Recovered\<close> and that size is appended; and the scan goes on by reading the block after
  \<open>b\<close>, from the state that carving these blocks alone leaves: the bytes of \<open>b\<close> after the
  marker are not searched.
\<close>

theorem end_marker_ends_file:
  assumes "byte \<noteq> []" "find_start byte = Some (ft, pos)" "sink_open_ok env (rcvd st)"
    and "\<forall>n. stop_after env = Some n \<longrightarrow> offs st + length mid < n"
    and "\<forall>n. offs st < n \<and> n \<le> offs st + length mid + 1 \<longrightarrow> read_ok env n"
    and "\<forall>w. w \<le> length mid + 1 \<longrightarrow> sink_write_ok env (rcvd st) w"
    and "[] \<notin> set mid" "\<forall>m\<in>set mid. find_bytes (end_signature ft) m = None"
    and "b \<noteq> []" "find_bytes (end_signature ft) b = Some k"
  shows "\<exists>st'. scan_loop env fl total_sectors output_dir st byte (mid @ b # bs) =
                 resume env fl total_sectors output_dir st' bs \<and>
           st' = finish_candidate (candidate_path output_dir (rcvd st) ft) ft
                   (state_of (carve_file env fl total_sectors ft
                      (candidate_path output_dir (rcvd st) ft)
                      (begin_file (candidate_path output_dir (rcvd st) ft) pos byte st)
                      (mid @ [b]))) \<and>
           disk st' (candidate_path output_dir (rcvd st) ft) =
             Some (drop pos byte @ concat mid @ take (k + (if ft = ''jpg'' then 2 else 12)) b) \<and>
           recovered_files st' = recovered_files st @
             [\<lparr>path = candidate_path output_dir (rcvd st) ft,
               fsize = length (drop pos byte) + length (concat mid) +
                       min (k + (if ft = ''jpg'' then 2 else 12)) (length b),
               ftype = ft, status = ''Recovered'', hash = None\<rparr>]"
proof -
  define fp where "fp = candidate_path output_dir (rcvd st) ft"
  define s1 where "s1 = begin_file fp pos byte st"
  from assms(4) have run: "is_running env st"
    by (auto simp: is_running_def split: option.splits)
  have "\<exists>s. (\<forall>bs. carve_file env fl total_sectors ft fp s1 (mid @ b # bs) = Inr (s, bs)) \<and>
         file_bytes s fp =
           file_bytes s1 fp @ concat mid @ take (k + (if ft = ''jpg'' then 2 else 12)) b \<and>
         rcvd s = rcvd s1 \<and> recovered_files s = recovered_files s1"
    using assms(4-6)
    by (intro carve_file_through [OF assms(7-10)]) (simp_all add: s1_def)
  then obtain s2 where
    cf: "\<And>bs. carve_file env fl total_sectors ft fp s1 (mid @ b # bs) = Inr (s2, bs)"
    and bytes: "file_bytes s2 fp =
           drop pos byte @ concat mid @ take (k + (if ft = ''jpg'' then 2 else 12)) b"
    and keep: "rcvd s2 = rcvd st" "recovered_files s2 = recovered_files st"
    by (auto simp: s1_def)
  define st' where "st' = finish_candidate fp ft s2"
  from assms(6) have w0: "sink_write_ok env (rcvd st) 0" by simp
  have blk: "scan_block env fl total_sectors output_dir st byte (mid @ b # bs) = Inr (st', bs)"
    using assms(2,3) w0 cf [of bs]
    by (simp add: scan_block_def carve_candidate_def Let_def fp_def [symmetric]
          s1_def [symmetric] st'_def)
  have loop: "scan_loop env fl total_sectors output_dir st byte (mid @ b # bs) =
              resume env fl total_sectors output_dir st' bs"
    using assms(1) run blk by (subst scan_loop.simps) (simp add: resume_def)
  have expl: "st' = finish_candidate fp ft
      (state_of (carve_file env fl total_sectors ft fp s1 (mid @ [b])))"
    using cf [of "[]"] by (simp add: st'_def)
  have "disk s2 fp \<noteq> None"
  proof -
    have "disk (state_of (carve_file env fl total_sectors ft fp s1 (mid @ [b]))) fp \<noteq> None"
      by (rule carve_file_invariant [where P = "\<lambda>s. disk s fp \<noteq> None"])
         (simp_all add: file_tick_def Let_def emit_def sink_write_def s1_def begin_file_def)
    with cf [of "[]"] show ?thesis by simp
  qed
  with bytes have dsk: "disk st' fp =
      Some (drop pos byte @ concat mid @ take (k + (if ft = ''jpg'' then 2 else 12)) b)"
    by (auto simp: st'_def finish_candidate_def emit_def file_bytes_def split: option.splits)
  have recs: "recovered_files st' = recovered_files st @
             [\<lparr>path = fp,
               fsize = length (drop pos byte) + length (concat mid) +
                       min (k + (if ft = ''jpg'' then 2 else 12)) (length b),
               ftype = ft, status = ''Recovered'', hash = None\<rparr>]"
    using bytes keep by (simp add: st'_def finish_candidate_def emit_def min.commute)
  from loop expl dsk recs show ?thesis
    unfolding fp_def s1_def by blast
qed

theorem end_marker_ends_file_witness:
  "\<exists>st'. scan_loop (healthy []) exact_ops 1 ''out'' start_state [0xff, 0xd8, 0xff, 0xe0]
            [[0x01], [0xff, 0xd9, 0x89]] = resume (healthy []) exact_ops 1 ''out'' st' [] \<and>
         disk st' ''out/recovered_0.jpg'' = Some [0xff, 0xd8, 0xff, 0xe0, 0x01, 0xff, 0xd9] \<and>
         recovered_files st' =
           [\<lparr>path = ''out/recovered_0.jpg'', fsize = 7, ftype = ''jpg'', status = ''Recovered'',
             hash = None\<rparr>]"
proof -
  note inst = end_marker_ends_file [where byte = "[0xff, 0xd8, 0xff, 0xe0]" and ft = "''jpg''"
      and pos = 0 and env = "healthy []" and st = start_state and mid = "[[0x01]]"
      and b = "[0xff, 0xd9, 0x89]" and k = 0 and fl = exact_ops and total_sectors = 1
      and output_dir = "''out''" and bs = "[]"]
  have "\<exists>st'. scan_loop (healthy []) exact_ops 1 ''out'' start_state [0xff, 0xd8, 0xff, 0xe0]
            ([[0x01]] @ [0xff, 0xd9, 0x89] # []) = resume (healthy []) exact_ops 1 ''out'' st' [] \<and>
         st' = finish_candidate (candidate_path ''out'' (rcvd start_state) ''jpg'') ''jpg''
                 (state_of (carve_file (healthy []) exact_ops 1 ''jpg''
                    (candidate_path ''out'' (rcvd start_state) ''jpg'')
                    (begin_file (candidate_path ''out'' (rcvd start_state) ''jpg'') 0
                       [0xff, 0xd8, 0xff, 0xe0] start_state)
                    ([[0x01]] @ [[0xff, 0xd9, 0x89]]))) \<and>
         disk st' (candidate_path ''out'' (rcvd start_state) ''jpg'') =
           Some (drop 0 [0xff, 0xd8, 0xff, 0xe0] @ concat [[0x01]] @
                 take (0 + (if ''jpg'' = ''jpg'' then 2 else 12)) [0xff, 0xd9, 0x89]) \<and>
         recovered_files st' = recovered_files start_state @
           [\<lparr>path = candidate_path ''out'' (rcvd start_state) ''jpg'',
             fsize = length (drop 0 [0xff, 0xd8, 0xff, 0xe0 :: byte]) + length (concat [[0x01 :: byte]]) +
                     min (0 + (if ''jpg'' = ''jpg'' then 2 else 12)) (length [0xff, 0xd9, 0x89 :: byte]),
             ftype = ''jpg'', status = ''Recovered'', hash = None\<rparr>]"
    by (rule inst)
       (simp_all add: find_in_small_blocks healthy_fields healthy_def del: find_bytes.simps)
  then obtain st' where
    "scan_loop (healthy []) exact_ops 1 ''out'' start_state [0xff, 0xd8, 0xff, 0xe0]
            [[0x01], [0xff, 0xd9, 0x89]] = resume (healthy []) exact_ops 1 ''out'' st' []"
    "disk st' ''out/recovered_0.jpg'' = Some [0xff, 0xd8, 0xff, 0xe0, 0x01, 0xff, 0xd9]"
    "recovered_files st' =
           [\<lparr>path = ''out/recovered_0.jpg'', fsize = 7, ftype = ''jpg'', status = ''Recovered'',
             hash = None\<rparr>]"
    by (auto simp: start_state_fields candidate_path_first)
  then show ?thesis by blast
qed

end
